theory Spec2Isabelle
  imports Main
begin

section \<open>Data model of chess.py\<close>

text \<open>
  Colours are the strings \<^verbatim>\<open>"w"\<close> and \<^verbatim>\<open>"b"\<close>, piece kinds the one-letter strings
  \<^verbatim>\<open>"K" "Q" "R" "B" "N" "P"\<close>. A cell of the grid is the sentinel \<^verbatim>\<open>"."\<close> or a pair
  (colour, kind).
\<close>

datatype color = White | Black

datatype kind = King | Queen | Rook | Bishop | Knight | Pawn

datatype cell = Empty | Piece color kind

text \<open>The exceptions the engine can raise: a list index out of range, the failed
  unpacking \<^verbatim>\<open>color, p = "."\<close>, and the failed unpacking \<^verbatim>\<open>kr,kc = None\<close>.\<close>

datatype error = IndexError | ValueError | TypeError

text \<open>\<^verbatim>\<open>@dataclass class Move\<close>: squares are (row, column) pairs of Python ints.\<close>

record Move =
  fr :: "int \<times> int"
  to :: "int \<times> int"
  promotion :: "kind option"
  is_castle :: bool
  is_en_passant :: bool

text \<open>The dictionary \<^verbatim>\<open>self.castling\<close> always has exactly the four keys
  \<^verbatim>\<open>"wK" "wQ" "bK" "bQ"\<close>; it is a record of four booleans.\<close>

record rights =
  wK :: bool
  wQ :: bool
  bK :: bool
  bQ :: bool

type_synonym grid = "cell list list"

text \<open>\<^verbatim>\<open>class Board\<close>: the grid \<^verbatim>\<open>self.board\<close> (a list of 8 rows of 8 cells, row 0 being
  black's back rank), the side to move, the castling rights and the en-passant target.\<close>

record Board =
  board :: grid
  turn :: color
  castling :: rights
  en_passant :: "(int \<times> int) option"

text \<open>\<^verbatim>\<open>Move(fr, to)\<close> with the defaults of the dataclass.\<close>

definition mk_move :: "int \<times> int \<Rightarrow> int \<times> int \<Rightarrow> Move" where
  "mk_move f t = \<lparr>fr = f, to = t, promotion = None, is_castle = False, is_en_passant = False\<rparr>"

definition in_bounds :: "int \<Rightarrow> int \<Rightarrow> bool" where
  "in_bounds r c \<longleftrightarrow> 0 \<le> r \<and> r < 8 \<and> 0 \<le> c \<and> c < 8"

definition other :: "color \<Rightarrow> color" where
  "other col = (if col = Black then White else Black)"

subsection \<open>Reading and writing the grid\<close>

text \<open>\<^verbatim>\<open>self.board[r][c]\<close> where the source has established \<^verbatim>\<open>in_bounds(r,c)\<close> (or
  iterates \<^verbatim>\<open>range(8)\<close>): on the 8 by 8 grid the index is in range.\<close>

definition cell_at :: "Board \<Rightarrow> int \<Rightarrow> int \<Rightarrow> cell" where
  "cell_at b r c = board b ! nat r ! nat c"

text \<open>Python list indexing on an unchecked int: a negative index counts from the end,
  anything outside \<open>[-len, len)\<close> raises IndexError.\<close>

definition py_idx :: "'a list \<Rightarrow> int \<Rightarrow> nat option" where
  "py_idx xs i =
     (if 0 \<le> i then (if i < int (length xs) then Some (nat i) else None)
      else (if - int (length xs) \<le> i then Some (nat (int (length xs) + i)) else None))"

definition getitem :: "grid \<Rightarrow> int \<Rightarrow> int \<Rightarrow> error + cell" where
  "getitem g r c =
     (case py_idx g r of
        None \<Rightarrow> Inl IndexError
      | Some i \<Rightarrow> (case py_idx (g ! i) c of
                     None \<Rightarrow> Inl IndexError
                   | Some j \<Rightarrow> Inr (g ! i ! j)))"

definition setitem :: "grid \<Rightarrow> int \<Rightarrow> int \<Rightarrow> cell \<Rightarrow> error + grid" where
  "setitem g r c v =
     (case py_idx g r of
        None \<Rightarrow> Inl IndexError
      | Some i \<Rightarrow> (case py_idx (g ! i) c of
                     None \<Rightarrow> Inl IndexError
                   | Some j \<Rightarrow> Inr (g[i := (g ! i)[j := v]])))"

subsection \<open>The initial position\<close>

definition back_rank :: "kind list" where
  "back_rank = [Rook, Knight, Bishop, Queen, King, Bishop, Knight, Rook]"

definition put :: "nat \<Rightarrow> nat \<Rightarrow> cell \<Rightarrow> grid \<Rightarrow> grid" where
  "put r c v g = g[r := (g ! r)[c := v]]"

text \<open>\<^verbatim>\<open>_setup\<close>: the two loops, over \<^verbatim>\<open>enumerate(back)\<close> (the list \<open>back_rank\<close>)
  and over \<^verbatim>\<open>range(8)\<close>.\<close>

definition setup_board :: "grid \<Rightarrow> grid" where
  "setup_board g =
     fold (\<lambda>i. put 1 i (Piece Black Pawn) \<circ> put 6 i (Piece White Pawn)) [0..<8]
       (fold (\<lambda>(i, p). put 0 i (Piece Black p) \<circ> put 7 i (Piece White p)) (enumerate 0 back_rank) g)"

text \<open>\<^verbatim>\<open>Board()\<close>, the freshly constructed game.\<close>

definition new_board :: Board where
  "new_board =
     \<lparr>board = setup_board (replicate 8 (replicate 8 Empty)),
      turn = White,
      castling = \<lparr>wK = True, wQ = True, bK = True, bQ = True\<rparr>,
      en_passant = None\<rparr>"

text \<open>\<^verbatim>\<open>clone\<close> copies every row, the dictionary and the two scalar fields; as a value
  the copy equals the original (the store model below keeps the identities apart).\<close>

definition clone :: "Board \<Rightarrow> Board" where
  "clone b =
     \<lparr>board = map (\<lambda>row. row) (board b), turn = turn b,
      castling = castling b, en_passant = en_passant b\<rparr>"

definition piece :: "Board \<Rightarrow> int \<Rightarrow> int \<Rightarrow> (color \<times> kind) option" where
  "piece b r c = (case cell_at b r c of Empty \<Rightarrow> None | Piece col k \<Rightarrow> Some (col, k))"

definition color_at :: "Board \<Rightarrow> int \<Rightarrow> int \<Rightarrow> color option" where
  "color_at b r c = (case piece b r c of None \<Rightarrow> None | Some v \<Rightarrow> Some (fst v))"

text \<open>The 64 squares in the order of the nested loops \<^verbatim>\<open>for r in range(8): for c in range(8)\<close>.\<close>

definition squares :: "(int \<times> int) list" where
  "squares = concat (map (\<lambda>r. map (\<lambda>c. (r, c)) [0..7]) [0..7])"

definition king_pos :: "Board \<Rightarrow> color \<Rightarrow> (int \<times> int) option" where
  "king_pos b col =
     find (\<lambda>(r, c). cell_at b r c \<noteq> Empty \<and> cell_at b r c = Piece col King) squares"

section \<open>Attack detector\<close>

definition knight_offsets :: "(int \<times> int) list" where
  "knight_offsets = [(-2,-1),(-2,1),(-1,-2),(-1,2),(1,-2),(1,2),(2,-1),(2,1)]"

definition diag_dirs :: "(int \<times> int) list" where
  "diag_dirs = [(-1,-1),(-1,1),(1,-1),(1,1)]"

definition ortho_dirs :: "(int \<times> int) list" where
  "ortho_dirs = [(-1,0),(1,0),(0,-1),(0,1)]"

definition king_offsets :: "(int \<times> int) list" where
  "king_offsets =
     concat (map (\<lambda>dr. concat (map (\<lambda>dc. if dr = 0 \<and> dc = 0 then [] else [(dr, dc)]) [-1, 0, 1]))
       [-1, 0, 1])"

text \<open>The pawn clause of \<^verbatim>\<open>is_attacked\<close> (lines 66 to 70).\<close>

definition pawn_hit :: "Board \<Rightarrow> int \<Rightarrow> int \<Rightarrow> color \<Rightarrow> bool" where
  "pawn_hit b r c by_color =
     (let dr = (if by_color = White then -1 else 1) in
      list_ex (\<lambda>dc. in_bounds (r + dr) (c + dc) \<and> cell_at b (r + dr) (c + dc) = Piece by_color Pawn)
        [-1, 1])"

definition knight_hit :: "Board \<Rightarrow> int \<Rightarrow> int \<Rightarrow> color \<Rightarrow> bool" where
  "knight_hit b r c by_color =
     list_ex (\<lambda>(dr, dc). in_bounds (r + dr) (c + dc) \<and> cell_at b (r + dr) (c + dc) = Piece by_color Knight)
       knight_offsets"

text \<open>The inner \<^verbatim>\<open>while in_bounds(rr,cc)\<close> loop of a ray scan, entered at \<open>(rr, cc)\<close>: it
  answers whether the first occupied square on the ray is one of \<open>targets\<close>. Every
  direction in the source is a literal non-zero pair; the test on \<open>(dr, dc)\<close> only
  records that, so that the recursion is total.\<close>

function ray_hit :: "Board \<Rightarrow> cell list \<Rightarrow> int \<Rightarrow> int \<Rightarrow> int \<Rightarrow> int \<Rightarrow> bool" where
  "ray_hit b targets rr cc dr dc =
     (if in_bounds rr cc \<and> (dr \<noteq> 0 \<or> dc \<noteq> 0) then
        (if cell_at b rr cc \<noteq> Empty then cell_at b rr cc \<in> set targets
         else ray_hit b targets (rr + dr) (cc + dc) dr dc)
      else False)"
  by pat_completeness auto
termination
  by (relation "measure (\<lambda>(b, targets, rr, cc, dr, dc).
        nat (if 0 < dr then 8 - rr else if dr < 0 then rr + 1
             else if 0 < dc then 8 - cc else cc + 1))")
     (auto simp: in_bounds_def)

declare ray_hit.simps [simp del]

definition diag_hit :: "Board \<Rightarrow> int \<Rightarrow> int \<Rightarrow> color \<Rightarrow> bool" where
  "diag_hit b r c by_color =
     list_ex (\<lambda>(dr, dc). ray_hit b [Piece by_color Bishop, Piece by_color Queen] (r + dr) (c + dc) dr dc)
       diag_dirs"

definition ortho_hit :: "Board \<Rightarrow> int \<Rightarrow> int \<Rightarrow> color \<Rightarrow> bool" where
  "ortho_hit b r c by_color =
     list_ex (\<lambda>(dr, dc). ray_hit b [Piece by_color Rook, Piece by_color Queen] (r + dr) (c + dc) dr dc)
       ortho_dirs"

definition king_hit :: "Board \<Rightarrow> int \<Rightarrow> int \<Rightarrow> color \<Rightarrow> bool" where
  "king_hit b r c by_color =
     list_ex (\<lambda>(dr, dc). in_bounds (r + dr) (c + dc) \<and> cell_at b (r + dr) (c + dc) = Piece by_color King)
       king_offsets"

text \<open>\<^verbatim>\<open>is_attacked\<close> returns True at the first clause that fires and has no effect.\<close>

definition is_attacked :: "Board \<Rightarrow> int \<Rightarrow> int \<Rightarrow> color \<Rightarrow> bool" where
  "is_attacked b r c by_color \<longleftrightarrow>
     pawn_hit b r c by_color \<or> knight_hit b r c by_color \<or> diag_hit b r c by_color
     \<or> ortho_hit b r c by_color \<or> king_hit b r c by_color"

text \<open>\<^verbatim>\<open>in_check\<close>: unpacking the result of \<^verbatim>\<open>king_pos\<close> raises TypeError when there is
  no king of that colour.\<close>

definition in_check :: "Board \<Rightarrow> color \<Rightarrow> error + bool" where
  "in_check b col =
     (case king_pos b col of
        None \<Rightarrow> Inl TypeError
      | Some (kr, kc) \<Rightarrow> Inr (is_attacked b kr kc (if col = Black then White else Black)))"

section \<open>Move generator\<close>

definition promo_kinds :: "kind list" where
  "promo_kinds = [Queen, Rook, Bishop, Knight]"

definition promo_moves :: "int \<times> int \<Rightarrow> int \<times> int \<Rightarrow> Move list" where
  "promo_moves f t = map (\<lambda>promo. (mk_move f t)\<lparr>promotion := Some promo\<rparr>) promo_kinds"

definition pawn_moves :: "Board \<Rightarrow> color \<Rightarrow> int \<Rightarrow> int \<Rightarrow> Move list" where
  "pawn_moves b col r c =
     (let dir = (if col = White then -1 else 1); rr = r + dir in
        (if in_bounds rr c \<and> cell_at b rr c = Empty then
           (if rr = 0 \<or> rr = 7 then promo_moves (r, c) (rr, c) else [mk_move (r, c) (rr, c)])
           @ (if (r = 6 \<and> col = White) \<or> (r = 1 \<and> col = Black) then
                (if cell_at b (r + 2 * dir) c = Empty then [mk_move (r, c) (r + 2 * dir, c)] else [])
              else [])
         else [])
        @ concat (map (\<lambda>dc.
             if in_bounds rr (c + dc) \<and> cell_at b rr (c + dc) \<noteq> Empty
                \<and> color_at b rr (c + dc) \<noteq> Some col
             then (if rr = 0 \<or> rr = 7 then promo_moves (r, c) (rr, c + dc)
                   else [mk_move (r, c) (rr, c + dc)])
             else []) [-1, 1])
        @ (case en_passant b of
             None \<Rightarrow> []
           | Some (er, ec) \<Rightarrow>
               if er = r + dir \<and> \<bar>ec - c\<bar> = 1
               then [(mk_move (r, c) (er, ec))\<lparr>is_en_passant := True\<rparr>] else []))"

definition knight_moves :: "Board \<Rightarrow> color \<Rightarrow> int \<Rightarrow> int \<Rightarrow> Move list" where
  "knight_moves b col r c =
     concat (map (\<lambda>(dr, dc).
        if in_bounds (r + dr) (c + dc) \<and> color_at b (r + dr) (c + dc) \<noteq> Some col
        then [mk_move (r, c) (r + dr, c + dc)] else []) knight_offsets)"

text \<open>The \<^verbatim>\<open>while\<close> loop of a sliding piece along one direction, entered at \<open>(rr, cc)\<close>.\<close>

function slide :: "Board \<Rightarrow> color \<Rightarrow> int \<times> int \<Rightarrow> int \<Rightarrow> int \<Rightarrow> int \<Rightarrow> int \<Rightarrow> Move list" where
  "slide b col src rr cc dr dc =
     (if in_bounds rr cc \<and> (dr \<noteq> 0 \<or> dc \<noteq> 0) then
        (if cell_at b rr cc = Empty then
           mk_move src (rr, cc) # slide b col src (rr + dr) (cc + dc) dr dc
         else (if color_at b rr cc \<noteq> Some col then [mk_move src (rr, cc)] else []))
      else [])"
  by pat_completeness auto
termination
  by (relation "measure (\<lambda>(b, col, src, rr, cc, dr, dc).
        nat (if 0 < dr then 8 - rr else if dr < 0 then rr + 1
             else if 0 < dc then 8 - cc else cc + 1))")
     (auto simp: in_bounds_def)

declare slide.simps [simp del]

definition slider_moves :: "Board \<Rightarrow> color \<Rightarrow> kind \<Rightarrow> int \<Rightarrow> int \<Rightarrow> Move list" where
  "slider_moves b col p r c =
     concat (map (\<lambda>(dr, dc). slide b col (r, c) (r + dr) (c + dc) dr dc)
       ((if p = Bishop \<or> p = Queen then diag_dirs else [])
        @ (if p = Rook \<or> p = Queen then ortho_dirs else [])))"

definition king_steps :: "Board \<Rightarrow> color \<Rightarrow> int \<Rightarrow> int \<Rightarrow> Move list" where
  "king_steps b col r c =
     concat (map (\<lambda>(dr, dc).
        if in_bounds (r + dr) (c + dc) \<and> color_at b (r + dr) (c + dc) \<noteq> Some col
        then [mk_move (r, c) (r + dr, c + dc)] else []) king_offsets)"

definition castle :: "int \<times> int \<Rightarrow> int \<times> int \<Rightarrow> Move" where
  "castle f t = (mk_move f t)\<lparr>is_castle := True\<rparr>"

text \<open>Lines 161 to 175. The branch is reached at a square holding a king of \<open>col\<close>, so
  \<^verbatim>\<open>in_check\<close> cannot raise there (lemma \<open>in_check_defined\<close> below); the model gives
  no castling move in that unreachable case.\<close>

definition castle_moves :: "Board \<Rightarrow> color \<Rightarrow> Move list" where
  "castle_moves b col =
     (case in_check b col of
        Inr False \<Rightarrow>
          (if col = White then
             (if wK (castling b) \<and> cell_at b 7 5 = Empty \<and> cell_at b 7 6 = Empty then
                (if \<not> is_attacked b 7 5 Black \<and> \<not> is_attacked b 7 6 Black
                 then [castle (7, 4) (7, 6)] else [])
              else [])
             @ (if wQ (castling b) \<and> cell_at b 7 1 = Empty \<and> cell_at b 7 2 = Empty
                   \<and> cell_at b 7 3 = Empty then
                  (if \<not> is_attacked b 7 3 Black \<and> \<not> is_attacked b 7 2 Black
                   then [castle (7, 4) (7, 2)] else [])
                else [])
           else
             (if bK (castling b) \<and> cell_at b 0 5 = Empty \<and> cell_at b 0 6 = Empty then
                (if \<not> is_attacked b 0 5 White \<and> \<not> is_attacked b 0 6 White
                 then [castle (0, 4) (0, 6)] else [])
              else [])
             @ (if bQ (castling b) \<and> cell_at b 0 1 = Empty \<and> cell_at b 0 2 = Empty
                   \<and> cell_at b 0 3 = Empty then
                  (if \<not> is_attacked b 0 3 White \<and> \<not> is_attacked b 0 2 White
                   then [castle (0, 4) (0, 2)] else [])
                else []))
      | _ \<Rightarrow> [])"

text \<open>The body of the double loop of \<^verbatim>\<open>generate_pseudo\<close> for one square.\<close>

definition piece_moves :: "Board \<Rightarrow> color \<Rightarrow> int \<Rightarrow> int \<Rightarrow> Move list" where
  "piece_moves b col r c =
     (if color_at b r c \<noteq> Some col then []
      else (case cell_at b r c of
              Empty \<Rightarrow> []
            | Piece _ p \<Rightarrow>
                (if p = Pawn then pawn_moves b col r c
                 else if p = Knight then knight_moves b col r c
                 else if p = Bishop \<or> p = Rook \<or> p = Queen then slider_moves b col p r c
                 else if p = King then king_steps b col r c @ castle_moves b col
                 else [])))"

definition generate_pseudo :: "Board \<Rightarrow> color \<Rightarrow> Move list" where
  "generate_pseudo b col = concat (map (\<lambda>(r, c). piece_moves b col r c) squares)"

section \<open>Move applier\<close>

text \<open>\<^verbatim>\<open>make_move\<close> mutates the board statement by statement. A statement is a step from
  a board to an error or the next board; \<open>run\<close> executes the statements in order and
  returns the exception raised, if any, together with the state reached by then.\<close>

type_synonym step = "Board \<Rightarrow> error + Board"

fun run :: "step list \<Rightarrow> Board \<Rightarrow> error option \<times> Board" where
  "run [] b = (None, b)"
| "run (s # ss) b = (case s b of Inl e \<Rightarrow> (Some e, b) | Inr b' \<Rightarrow> run ss b')"

text \<open>\<^verbatim>\<open>if cond: ...\<close>\<close>

definition when_do :: "bool \<Rightarrow> step list \<Rightarrow> step list" where
  "when_do cond ss = (if cond then ss else [])"

text \<open>\<^verbatim>\<open>self.board[r][c] = v\<close>\<close>

definition set_cell :: "int \<times> int \<Rightarrow> cell \<Rightarrow> step" where
  "set_cell rc v b =
     (case setitem (board b) (fst rc) (snd rc) v of
        Inl e \<Rightarrow> Inl e
      | Inr g \<Rightarrow> Inr (b\<lparr>board := g\<rparr>))"

text \<open>\<^verbatim>\<open>self.board[r][c] = self.board[r'][c']\<close>\<close>

definition copy_cell :: "int \<times> int \<Rightarrow> int \<times> int \<Rightarrow> step" where
  "copy_cell dst src b =
     (case getitem (board b) (fst src) (snd src) of
        Inl e \<Rightarrow> Inl e
      | Inr v \<Rightarrow> set_cell dst v b)"

text \<open>\<^verbatim>\<open>self.castling[key] = False\<close>, one step per key.\<close>

definition drop_wK :: step where "drop_wK b = Inr (b\<lparr>castling := (castling b)\<lparr>wK := False\<rparr>\<rparr>)"
definition drop_wQ :: step where "drop_wQ b = Inr (b\<lparr>castling := (castling b)\<lparr>wQ := False\<rparr>\<rparr>)"
definition drop_bK :: step where "drop_bK b = Inr (b\<lparr>castling := (castling b)\<lparr>bK := False\<rparr>\<rparr>)"
definition drop_bQ :: step where "drop_bQ b = Inr (b\<lparr>castling := (castling b)\<lparr>bQ := False\<rparr>\<rparr>)"

definition set_en_passant :: "(int \<times> int) option \<Rightarrow> step" where
  "set_en_passant e b = Inr (b\<lparr>en_passant := e\<rparr>)"

definition flip_turn :: step where
  "flip_turn b = Inr (b\<lparr>turn := (if turn b = Black then White else Black)\<rparr>)"

text \<open>The four-way test on a corner square, used for the rook's source (lines 198 to
  201) and for the captured square (lines 203 to 206).\<close>

definition corner_rights :: "int \<times> int \<Rightarrow> step list" where
  "corner_rights sq =
     when_do (sq = (7, 0)) [drop_wQ] @ when_do (sq = (7, 7)) [drop_wK]
     @ when_do (sq = (0, 0)) [drop_bQ] @ when_do (sq = (0, 7)) [drop_bK]"

definition castle_rook :: "int \<times> int \<Rightarrow> step list" where
  "castle_rook t =
     (if t = (7, 6) then [copy_cell (7, 5) (7, 7), set_cell (7, 7) Empty]
      else if t = (7, 2) then [copy_cell (7, 3) (7, 0), set_cell (7, 0) Empty]
      else if t = (0, 6) then [copy_cell (0, 5) (0, 7), set_cell (0, 7) Empty]
      else if t = (0, 2) then [copy_cell (0, 3) (0, 0), set_cell (0, 0) Empty]
      else [])"

text \<open>The statements of \<^verbatim>\<open>make_move\<close> after the reads of lines 188 to 191, for a moving
  piece \<open>(col, p)\<close> and the previous content \<open>dest\<close> of the destination: the
  castling-rights bookkeeping (lines 194 to 206), the writes to the grid (lines 208 to
  227), and the whole sequence.\<close>

definition rights_steps :: "Move \<Rightarrow> color \<Rightarrow> kind \<Rightarrow> cell \<Rightarrow> step list" where
  "rights_steps mv col p dest =
     when_do (p = King) (if col = White then [drop_wK, drop_wQ] else [drop_bK, drop_bQ])
     @ when_do (p = Rook) (corner_rights (fr mv))
     @ when_do (dest \<noteq> Empty) (corner_rights (to mv))"

definition grid_steps :: "Move \<Rightarrow> color \<Rightarrow> kind \<Rightarrow> step list" where
  "grid_steps mv col p =
     when_do (is_en_passant mv)
       [set_cell (fst (to mv) + (if col = White then 1 else -1), snd (to mv)) Empty]
     @ [set_cell (fr mv) Empty, set_cell (to mv) (Piece col p)]
     @ when_do (p = Pawn \<and> (fst (to mv) = 0 \<or> fst (to mv) = 7))
         [set_cell (to mv) (Piece col (case promotion mv of None \<Rightarrow> Queen | Some k \<Rightarrow> k))]
     @ when_do (is_castle mv) (castle_rook (to mv))"

definition move_steps :: "Move \<Rightarrow> color \<Rightarrow> kind \<Rightarrow> cell \<Rightarrow> step list" where
  "move_steps mv col p dest =
     [set_en_passant None]
     @ rights_steps mv col p dest
     @ grid_steps mv col p
     @ when_do (p = Pawn \<and> \<bar>fst (to mv) - fst (fr mv)\<bar> = 2)
         [set_en_passant (Some ((fst (to mv) + fst (fr mv)) div 2, snd (fr mv)))]
     @ [flip_turn]"

text \<open>\<^verbatim>\<open>make_move\<close>: reading the source cell raises IndexError outside the grid, unpacking
  an empty source cell raises ValueError, reading the destination raises IndexError; then
  the statements run.\<close>

definition make_move :: "Board \<Rightarrow> Move \<Rightarrow> error option \<times> Board" where
  "make_move b mv =
     (case getitem (board b) (fst (fr mv)) (snd (fr mv)) of
        Inl e \<Rightarrow> (Some e, b)
      | Inr Empty \<Rightarrow> (Some ValueError, b)
      | Inr (Piece col p) \<Rightarrow>
          (case getitem (board b) (fst (to mv)) (snd (to mv)) of
             Inl e \<Rightarrow> (Some e, b)
           | Inr dest \<Rightarrow> run (move_steps mv col p dest) b))"

section \<open>Legality filter\<close>

text \<open>The loop of \<^verbatim>\<open>legal_moves\<close> over the pseudo-legal moves: each candidate is applied
  to a clone, and an exception in \<^verbatim>\<open>make_move\<close> or \<^verbatim>\<open>in_check\<close> ends the call.\<close>

fun legal_loop :: "Board \<Rightarrow> color \<Rightarrow> Move list \<Rightarrow> error + Move list" where
  "legal_loop b col [] = Inr []"
| "legal_loop b col (mv # mvs) =
     (case make_move (clone b) mv of
        (Some e, _) \<Rightarrow> Inl e
      | (None, b') \<Rightarrow>
          (case in_check b' col of
             Inl e \<Rightarrow> Inl e
           | Inr chk \<Rightarrow>
               (case legal_loop b col mvs of
                  Inl e \<Rightarrow> Inl e
                | Inr out \<Rightarrow> Inr (if chk then out else mv # out))))"

definition legal_moves :: "Board \<Rightarrow> color \<Rightarrow> error + Move list" where
  "legal_moves b col = legal_loop b col (generate_pseudo b col)"

section \<open>Boards as objects in a store\<close>

text \<open>The methods of \<^verbatim>\<open>Board\<close> work on objects: \<^verbatim>\<open>self.board\<close> refers to a list of
  references to row lists, \<^verbatim>\<open>self.castling\<close> refers to a dictionary, and an assignment
  \<^verbatim>\<open>self.board[r][c] = v\<close> or \<^verbatim>\<open>self.castling[k] = False\<close> changes the list or dictionary
  referred to, for every object that refers to it. The store keeps these identities: a
  \<^verbatim>\<open>Board\<close> object holds the two references and its two scalar attributes, and the
  outer lists, the row lists and the dictionaries live at references of their own. Cells
  are immutable (a string or a tuple), they are stored in the rows as values.
  \<open>fresh\<close> is the next reference an allocation hands out.\<close>

type_synonym ref = nat

record obj =
  board_ref :: ref
  turn_val :: color
  castling_ref :: ref
  en_passant_val :: "(int \<times> int) option"

record store =
  objs :: "ref \<Rightarrow> obj"
  outers :: "ref \<Rightarrow> ref list"
  rows :: "ref \<Rightarrow> cell list"
  dicts :: "ref \<Rightarrow> rights"
  fresh :: ref

text \<open>The board an object stands for: what the attribute reads of the methods see.\<close>

definition load :: "store \<Rightarrow> ref \<Rightarrow> Board" where
  "load s a =
     \<lparr>board = map (rows s) (outers s (board_ref (objs s a))),
      turn = turn_val (objs s a),
      castling = dicts s (castling_ref (objs s a)),
      en_passant = en_passant_val (objs s a)\<rparr>"

text \<open>Allocation of an object, an outer list, a row list, a dictionary, and of the rows
  of a list comprehension, in order.\<close>

definition new_obj :: "obj \<Rightarrow> store \<Rightarrow> ref \<times> store" where
  "new_obj v s = (fresh s, s\<lparr>objs := (objs s)(fresh s := v), fresh := fresh s + 1\<rparr>)"

definition new_outer :: "ref list \<Rightarrow> store \<Rightarrow> ref \<times> store" where
  "new_outer v s = (fresh s, s\<lparr>outers := (outers s)(fresh s := v), fresh := fresh s + 1\<rparr>)"

definition new_row :: "cell list \<Rightarrow> store \<Rightarrow> ref \<times> store" where
  "new_row v s = (fresh s, s\<lparr>rows := (rows s)(fresh s := v), fresh := fresh s + 1\<rparr>)"

definition new_dict :: "rights \<Rightarrow> store \<Rightarrow> ref \<times> store" where
  "new_dict v s = (fresh s, s\<lparr>dicts := (dicts s)(fresh s := v), fresh := fresh s + 1\<rparr>)"

fun new_rows :: "cell list list \<Rightarrow> store \<Rightarrow> ref list \<times> store" where
  "new_rows [] s = ([], s)"
| "new_rows (v # vs) s =
     (case new_row v s of (a, s1) \<Rightarrow> (case new_rows vs s1 of (as, s2) \<Rightarrow> (a # as, s2)))"

text \<open>The attribute assignments \<^verbatim>\<open>b.board = ...\<close>, \<^verbatim>\<open>b.turn = ...\<close>,
  \<^verbatim>\<open>b.castling = ...\<close> and \<^verbatim>\<open>b.en_passant = ...\<close>.\<close>

definition set_board_ref :: "ref \<Rightarrow> ref \<Rightarrow> store \<Rightarrow> store" where
  "set_board_ref a v s = s\<lparr>objs := (objs s)(a := (objs s a)\<lparr>board_ref := v\<rparr>)\<rparr>"

definition set_turn :: "ref \<Rightarrow> color \<Rightarrow> store \<Rightarrow> store" where
  "set_turn a v s = s\<lparr>objs := (objs s)(a := (objs s a)\<lparr>turn_val := v\<rparr>)\<rparr>"

definition set_castling_ref :: "ref \<Rightarrow> ref \<Rightarrow> store \<Rightarrow> store" where
  "set_castling_ref a v s = s\<lparr>objs := (objs s)(a := (objs s a)\<lparr>castling_ref := v\<rparr>)\<rparr>"

definition set_ep :: "ref \<Rightarrow> (int \<times> int) option \<Rightarrow> store \<Rightarrow> store" where
  "set_ep a v s = s\<lparr>objs := (objs s)(a := (objs s a)\<lparr>en_passant_val := v\<rparr>)\<rparr>"

text \<open>\<^verbatim>\<open>Board()\<close>: a new object with eight new rows, a new outer list and a new
  dictionary; the rows are allocated with the content that \<^verbatim>\<open>_setup\<close> writes into them.\<close>

definition construct :: "store \<Rightarrow> ref \<times> store" where
  "construct s =
     (case new_obj \<lparr>board_ref = 0, turn_val = White, castling_ref = 0, en_passant_val = None\<rparr> s of
        (a, s0) \<Rightarrow>
     (case new_rows (setup_board (replicate 8 (replicate 8 Empty))) s0 of
        (rs, s1) \<Rightarrow>
     (case new_outer rs s1 of
        (out, s2) \<Rightarrow>
     (case new_dict \<lparr>wK = True, wQ = True, bK = True, bQ = True\<rparr> (set_turn a White (set_board_ref a out s2)) of
        (d, s3) \<Rightarrow> (a, set_ep a None (set_castling_ref a d s3))))))"

text \<open>\<^verbatim>\<open>clone\<close>, lines 43 to 48: \<^verbatim>\<open>Board()\<close>, then \<^verbatim>\<open>[row[:] for row in self.board]\<close>
  allocates a copy of every row and a new outer list, \<^verbatim>\<open>self.castling.copy()\<close> a new
  dictionary; the lists and the dictionary that \<^verbatim>\<open>Board()\<close> built stay in the store,
  unreferenced.\<close>

definition clone_obj :: "ref \<Rightarrow> store \<Rightarrow> ref \<times> store" where
  "clone_obj a s =
     (case construct s of
        (b, s1) \<Rightarrow>
     (case new_rows (map (rows s1) (outers s1 (board_ref (objs s1 a)))) s1 of
        (rs, s2) \<Rightarrow>
     (case new_outer rs s2 of
        (out, s3) \<Rightarrow>
     (case new_dict (dicts s3 (castling_ref (objs s3 a)))
             (set_turn b (turn_val (objs s3 a)) (set_board_ref b out s3)) of
        (d, s4) \<Rightarrow> (b, set_ep b (en_passant_val (objs s4 a)) (set_castling_ref b d s4))))))"

text \<open>\<^verbatim>\<open>make_move\<close> on the object at a reference: the statements of the method, each
  one reading and writing the store through the references of the object.\<close>

type_synonym ostep = "store \<Rightarrow> error + store"

fun run_obj :: "ostep list \<Rightarrow> store \<Rightarrow> error option \<times> store" where
  "run_obj [] s = (None, s)"
| "run_obj (f # fs) s = (case f s of Inl e \<Rightarrow> (Some e, s) | Inr s' \<Rightarrow> run_obj fs s')"

definition when_obj :: "bool \<Rightarrow> ostep list \<Rightarrow> ostep list" where
  "when_obj cond fs = (if cond then fs else [])"

definition getitem_obj :: "ref \<Rightarrow> int \<Rightarrow> int \<Rightarrow> store \<Rightarrow> error + cell" where
  "getitem_obj a r c s =
     (let out = outers s (board_ref (objs s a)) in
      case py_idx out r of
        None \<Rightarrow> Inl IndexError
      | Some i \<Rightarrow> (case py_idx (rows s (out ! i)) c of
                     None \<Rightarrow> Inl IndexError
                   | Some j \<Rightarrow> Inr (rows s (out ! i) ! j)))"

definition set_cell_obj :: "ref \<Rightarrow> int \<times> int \<Rightarrow> cell \<Rightarrow> ostep" where
  "set_cell_obj a rc v s =
     (let out = outers s (board_ref (objs s a)) in
      case py_idx out (fst rc) of
        None \<Rightarrow> Inl IndexError
      | Some i \<Rightarrow> (case py_idx (rows s (out ! i)) (snd rc) of
                     None \<Rightarrow> Inl IndexError
                   | Some j \<Rightarrow> Inr (s\<lparr>rows := (rows s)(out ! i := (rows s (out ! i))[j := v])\<rparr>)))"

definition copy_cell_obj :: "ref \<Rightarrow> int \<times> int \<Rightarrow> int \<times> int \<Rightarrow> ostep" where
  "copy_cell_obj a dst src s =
     (case getitem_obj a (fst src) (snd src) s of
        Inl e \<Rightarrow> Inl e
      | Inr v \<Rightarrow> set_cell_obj a dst v s)"

definition set_flag :: "ref \<Rightarrow> (rights \<Rightarrow> rights) \<Rightarrow> ostep" where
  "set_flag a f s =
     Inr (s\<lparr>dicts := (dicts s)(castling_ref (objs s a) := f (dicts s (castling_ref (objs s a))))\<rparr>)"

definition drop_wK_obj :: "ref \<Rightarrow> ostep" where "drop_wK_obj a = set_flag a (\<lambda>d. d\<lparr>wK := False\<rparr>)"
definition drop_wQ_obj :: "ref \<Rightarrow> ostep" where "drop_wQ_obj a = set_flag a (\<lambda>d. d\<lparr>wQ := False\<rparr>)"
definition drop_bK_obj :: "ref \<Rightarrow> ostep" where "drop_bK_obj a = set_flag a (\<lambda>d. d\<lparr>bK := False\<rparr>)"
definition drop_bQ_obj :: "ref \<Rightarrow> ostep" where "drop_bQ_obj a = set_flag a (\<lambda>d. d\<lparr>bQ := False\<rparr>)"

definition set_en_passant_obj :: "ref \<Rightarrow> (int \<times> int) option \<Rightarrow> ostep" where
  "set_en_passant_obj a e s = Inr (set_ep a e s)"

definition flip_turn_obj :: "ref \<Rightarrow> ostep" where
  "flip_turn_obj a s = Inr (set_turn a (if turn_val (objs s a) = Black then White else Black) s)"

definition corner_rights_obj :: "ref \<Rightarrow> int \<times> int \<Rightarrow> ostep list" where
  "corner_rights_obj a sq =
     when_obj (sq = (7, 0)) [drop_wQ_obj a] @ when_obj (sq = (7, 7)) [drop_wK_obj a]
     @ when_obj (sq = (0, 0)) [drop_bQ_obj a] @ when_obj (sq = (0, 7)) [drop_bK_obj a]"

definition castle_rook_obj :: "ref \<Rightarrow> int \<times> int \<Rightarrow> ostep list" where
  "castle_rook_obj a t =
     (if t = (7, 6) then [copy_cell_obj a (7, 5) (7, 7), set_cell_obj a (7, 7) Empty]
      else if t = (7, 2) then [copy_cell_obj a (7, 3) (7, 0), set_cell_obj a (7, 0) Empty]
      else if t = (0, 6) then [copy_cell_obj a (0, 5) (0, 7), set_cell_obj a (0, 7) Empty]
      else if t = (0, 2) then [copy_cell_obj a (0, 3) (0, 0), set_cell_obj a (0, 0) Empty]
      else [])"

definition rights_steps_obj :: "ref \<Rightarrow> Move \<Rightarrow> color \<Rightarrow> kind \<Rightarrow> cell \<Rightarrow> ostep list" where
  "rights_steps_obj a mv col p dest =
     when_obj (p = King)
       (if col = White then [drop_wK_obj a, drop_wQ_obj a] else [drop_bK_obj a, drop_bQ_obj a])
     @ when_obj (p = Rook) (corner_rights_obj a (fr mv))
     @ when_obj (dest \<noteq> Empty) (corner_rights_obj a (to mv))"

definition grid_steps_obj :: "ref \<Rightarrow> Move \<Rightarrow> color \<Rightarrow> kind \<Rightarrow> ostep list" where
  "grid_steps_obj a mv col p =
     when_obj (is_en_passant mv)
       [set_cell_obj a (fst (to mv) + (if col = White then 1 else -1), snd (to mv)) Empty]
     @ [set_cell_obj a (fr mv) Empty, set_cell_obj a (to mv) (Piece col p)]
     @ when_obj (p = Pawn \<and> (fst (to mv) = 0 \<or> fst (to mv) = 7))
         [set_cell_obj a (to mv) (Piece col (case promotion mv of None \<Rightarrow> Queen | Some k \<Rightarrow> k))]
     @ when_obj (is_castle mv) (castle_rook_obj a (to mv))"

definition move_steps_obj :: "ref \<Rightarrow> Move \<Rightarrow> color \<Rightarrow> kind \<Rightarrow> cell \<Rightarrow> ostep list" where
  "move_steps_obj a mv col p dest =
     [set_en_passant_obj a None]
     @ rights_steps_obj a mv col p dest
     @ grid_steps_obj a mv col p
     @ when_obj (p = Pawn \<and> \<bar>fst (to mv) - fst (fr mv)\<bar> = 2)
         [set_en_passant_obj a (Some ((fst (to mv) + fst (fr mv)) div 2, snd (fr mv)))]
     @ [flip_turn_obj a]"

definition make_move_obj :: "ref \<Rightarrow> Move \<Rightarrow> store \<Rightarrow> error option \<times> store" where
  "make_move_obj a mv s =
     (case getitem_obj a (fst (fr mv)) (snd (fr mv)) s of
        Inl e \<Rightarrow> (Some e, s)
      | Inr Empty \<Rightarrow> (Some ValueError, s)
      | Inr (Piece col p) \<Rightarrow>
          (case getitem_obj a (fst (to mv)) (snd (to mv)) s of
             Inl e \<Rightarrow> (Some e, s)
           | Inr dest \<Rightarrow> run_obj (move_steps_obj a mv col p dest) s))"

text \<open>\<^verbatim>\<open>legal_moves\<close> on the object at a reference. \<^verbatim>\<open>generate_pseudo\<close>, \<^verbatim>\<open>in_check\<close>,
  \<^verbatim>\<open>is_attacked\<close> and \<^verbatim>\<open>king_pos\<close> contain no assignment: they read the board their
  object stands for. Each candidate is applied to a clone, in the store the previous
  iterations left.\<close>

fun legal_loop_obj :: "ref \<Rightarrow> color \<Rightarrow> Move list \<Rightarrow> store \<Rightarrow> (error + Move list) \<times> store" where
  "legal_loop_obj a col [] s = (Inr [], s)"
| "legal_loop_obj a col (mv # mvs) s =
     (case clone_obj a s of
        (b, s1) \<Rightarrow>
          (case make_move_obj b mv s1 of
             (Some e, s2) \<Rightarrow> (Inl e, s2)
           | (None, s2) \<Rightarrow>
               (case in_check (load s2 b) col of
                  Inl e \<Rightarrow> (Inl e, s2)
                | Inr chk \<Rightarrow>
                    (case legal_loop_obj a col mvs s2 of
                       (Inl e, s3) \<Rightarrow> (Inl e, s3)
                     | (Inr out, s3) \<Rightarrow> (Inr (if chk then out else mv # out), s3)))))"

definition legal_moves_obj :: "ref \<Rightarrow> color \<Rightarrow> store \<Rightarrow> (error + Move list) \<times> store" where
  "legal_moves_obj a col s = legal_loop_obj a col (generate_pseudo (load s a) col) s"

text \<open>A store with nothing allocated.\<close>

definition empty_store :: store where
  "empty_store =
     \<lparr>objs = (\<lambda>x. \<lparr>board_ref = 0, turn_val = White, castling_ref = 0, en_passant_val = None\<rparr>),
      outers = (\<lambda>x. []), rows = (\<lambda>x. []),
      dicts = (\<lambda>x. \<lparr>wK = False, wQ = False, bK = False, bQ = False\<rparr>), fresh = 0\<rparr>"

text \<open>The object at \<open>a\<close>, its outer list, its rows and its dictionary have been
  allocated. Two stores agree below \<open>n\<close>: every reference allocated before \<open>n\<close> holds
  the same object, list or dictionary in both.\<close>

definition allocated :: "ref \<Rightarrow> store \<Rightarrow> bool" where
  "allocated a s \<longleftrightarrow>
     a < fresh s \<and> board_ref (objs s a) < fresh s \<and> castling_ref (objs s a) < fresh s
     \<and> list_all (\<lambda>r. r < fresh s) (outers s (board_ref (objs s a)))"

definition same_below :: "nat \<Rightarrow> store \<Rightarrow> store \<Rightarrow> bool" where
  "same_below n s s' \<longleftrightarrow>
     list_all (\<lambda>x. objs s' x = objs s x \<and> outers s' x = outers s x \<and> rows s' x = rows s x
                   \<and> dicts s' x = dicts s x) [0..<n]"

section \<open>Notions used to state the properties\<close>

text \<open>A board as the constructor builds it and \<^verbatim>\<open>make_move\<close> keeps it: 8 rows of 8
  cells, and an en-passant target, when set, on the third or the sixth rank.\<close>

definition wf_grid :: "grid \<Rightarrow> bool" where
  "wf_grid g \<longleftrightarrow> length g = 8 \<and> list_all (\<lambda>row. length row = 8) g"

definition wf_board :: "Board \<Rightarrow> bool" where
  "wf_board b \<longleftrightarrow>
     wf_grid (board b)
     \<and> (case en_passant b of
          None \<Rightarrow> True
        | Some (er, ec) \<Rightarrow> (er = 2 \<or> er = 5) \<and> 0 \<le> ec \<and> ec < 8)"

text \<open>The advancing direction of a pawn, as line 110 has it.\<close>

definition forward :: "color \<Rightarrow> int" where
  "forward col = (if col = White then -1 else 1)"

text \<open>The ranks of a colour, as rows of the grid: where its pawns start (\<^verbatim>\<open>_setup\<close> puts
  the white pawns on row 6 and the black pawns on row 1), the farthest rank from its side,
  and the rank of its king and rooks.\<close>

definition start_rank :: "color \<Rightarrow> int" where
  "start_rank col = (if col = White then 6 else 1)"

definition far_rank :: "color \<Rightarrow> int" where
  "far_rank col = (if col = White then 0 else 7)"

definition home_rank :: "color \<Rightarrow> int" where
  "home_rank col = (if col = White then 7 else 0)"

text \<open>The pawn attack in the words of the specification: a \<open>by_color\<close> pawn stands one
  rank behind the square in \<open>by_color\<close>'s advancing direction, on an adjacent file.\<close>

definition pawn_attacks_spec :: "Board \<Rightarrow> int \<Rightarrow> int \<Rightarrow> color \<Rightarrow> bool" where
  "pawn_attacks_spec b r c by_color =
     list_ex (\<lambda>dc. in_bounds (r - forward by_color) (c + dc)
                  \<and> cell_at b (r - forward by_color) (c + dc) = Piece by_color Pawn) [-1, 1]"

text \<open>One turn of a game as the front end plays it: the move is taken from
  \<^verbatim>\<open>legal_moves(turn)\<close> and handed to \<^verbatim>\<open>make_move\<close>.\<close>

definition play :: "Board \<Rightarrow> Move \<Rightarrow> Board option" where
  "play b mv =
     (case legal_moves b (turn b) of
        Inl e \<Rightarrow> None
      | Inr ms \<Rightarrow>
          if mv \<in> set ms
          then (case make_move b mv of (None, b') \<Rightarrow> Some b' | (Some e, b') \<Rightarrow> None)
          else None)"

fun play_all :: "Board \<Rightarrow> Move list \<Rightarrow> Board option" where
  "play_all b [] = Some b"
| "play_all b (mv # mvs) = (case play b mv of None \<Rightarrow> None | Some b' \<Rightarrow> play_all b' mvs)"

text \<open>f2f3, e7e5, g2g4, d8h4.\<close>

definition fools_mate :: "Move list" where
  "fools_mate =
     [mk_move (6, 5) (5, 5), mk_move (1, 4) (3, 4), mk_move (6, 6) (4, 6), mk_move (0, 3) (4, 7)]"

text \<open>e2e4, d7d5, e1e2, d5d4: the white king stands on e2 next to a black pawn on d4.\<close>

definition pawn_line :: "Move list" where
  "pawn_line =
     [mk_move (6, 4) (4, 4), mk_move (1, 3) (3, 3), mk_move (7, 4) (6, 4), mk_move (3, 3) (4, 3)]"

text \<open>e2e3, h7h5, f1e2, h5h4, g1f3, h4h3, f3d4, h3g2: a black pawn stands on g2, f1 and g1
  are empty, the white king and the h1 rook have not moved.\<close>

definition castle_line :: "Move list" where
  "castle_line =
     [mk_move (6, 4) (5, 4), mk_move (1, 7) (3, 7), mk_move (7, 5) (6, 4), mk_move (3, 7) (4, 7),
      mk_move (7, 6) (5, 5), mk_move (4, 7) (5, 7), mk_move (5, 5) (4, 3), mk_move (5, 7) (6, 6)]"

text \<open>A step respects a relation between the state before and the state after.\<close>

definition keeps :: "(Board \<Rightarrow> Board \<Rightarrow> bool) \<Rightarrow> step \<Rightarrow> bool" where
  "keeps R s \<longleftrightarrow> (\<forall>x y. s x = Inr y \<longrightarrow> R x y)"

definition rights_shrink :: "Board \<Rightarrow> Board \<Rightarrow> bool" where
  "rights_shrink x y \<longleftrightarrow>
     (wK (castling y) \<longrightarrow> wK (castling x)) \<and> (wQ (castling y) \<longrightarrow> wQ (castling x))
     \<and> (bK (castling y) \<longrightarrow> bK (castling x)) \<and> (bQ (castling y) \<longrightarrow> bQ (castling x))"

text \<open>A pawn double push in the words of chess: the source square holds a pawn that
  stands on the rank where the pawns of its colour start, and the destination is two
  squares straight ahead of it, on the same file. The square passed over is the one
  directly ahead of the source.\<close>

definition double_push :: "Board \<Rightarrow> Move \<Rightarrow> bool" where
  "double_push b mv =
     (case cell_at b (fst (fr mv)) (snd (fr mv)) of
        Empty \<Rightarrow> False
      | Piece col p \<Rightarrow>
          p = Pawn \<and> fst (fr mv) = start_rank col \<and> snd (to mv) = snd (fr mv)
          \<and> fst (to mv) = fst (fr mv) + 2 * forward col)"

definition passed_over :: "color \<Rightarrow> Move \<Rightarrow> int \<times> int" where
  "passed_over col mv = (fst (fr mv) + forward col, snd (fr mv))"

definition same_en_passant :: "Board \<Rightarrow> Board \<Rightarrow> bool" where
  "same_en_passant x y \<longleftrightarrow> en_passant y = en_passant x"

text \<open>Relations between the state before and after a step, and steps that cannot
  raise.\<close>

definition same_board :: "Board \<Rightarrow> Board \<Rightarrow> bool" where
  "same_board x y \<longleftrightarrow> board y = board x"

definition keeps_wf :: "Board \<Rightarrow> Board \<Rightarrow> bool" where
  "keeps_wf x y \<longleftrightarrow> (wf_grid (board x) \<longrightarrow> wf_grid (board y))"

definition sure :: "(Board \<Rightarrow> Board \<Rightarrow> bool) \<Rightarrow> step \<Rightarrow> bool" where
  "sure R s \<longleftrightarrow> (\<forall>x. \<exists>y. s x = Inr y \<and> R x y)"

text \<open>The grid with one cell replaced, for a square inside the board.\<close>

definition write_cell :: "int \<times> int \<Rightarrow> cell \<Rightarrow> Board \<Rightarrow> Board" where
  "write_cell rc v x =
     x\<lparr>board := (board x)[nat (fst rc) := (board x ! nat (fst rc))[nat (snd rc) := v]]\<rparr>"

text \<open>A step leaves one cell of the 8 by 8 grid as it is; and a step that cannot raise
  on an 8 by 8 grid and leaves one.\<close>

definition keeps_cell :: "int \<times> int \<Rightarrow> Board \<Rightarrow> Board \<Rightarrow> bool" where
  "keeps_cell t x y \<longleftrightarrow>
     (wf_grid (board x) \<longrightarrow> wf_grid (board y) \<and> cell_at y (fst t) (snd t) = cell_at x (fst t) (snd t))"

definition safe :: "step \<Rightarrow> bool" where
  "safe s \<longleftrightarrow> (\<forall>x. wf_grid (board x) \<longrightarrow> (\<exists>y. s x = Inr y \<and> wf_grid (board y)))"

text \<open>a2a4, b7b5, a4b5, a7a6, b5a6, c8b7, a6b7, b8c6: a white pawn stands on b7, the rook
  on a8 can be captured and b8 is empty.\<close>

definition promo_line :: "Move list" where
  "promo_line =
     [mk_move (6, 0) (4, 0), mk_move (1, 1) (3, 1), mk_move (4, 0) (3, 1), mk_move (1, 0) (2, 0),
      mk_move (3, 1) (2, 0), mk_move (0, 2) (1, 1), mk_move (2, 0) (1, 1), mk_move (0, 1) (2, 2)]"

text \<open>The boards of a game: the initial position, and every board reached from one of
  them by a move of \<^verbatim>\<open>legal_moves\<close> for the side to move, applied by \<^verbatim>\<open>make_move\<close>.\<close>

inductive reachable :: "Board \<Rightarrow> bool" where
  start: "reachable new_board"
| step: "reachable b \<Longrightarrow> play b mv = Some b' \<Longrightarrow> reachable b'"

text \<open>Relations between stores used in the proofs: the second store is the first with
  more allocated and nothing changed below \<open>n\<close>; the object at \<open>b\<close> refers only to
  references from \<open>n\<close> on and its rows are different lists; and a statement on the
  object at \<open>b\<close> does to the board the object stands for what the statement on boards
  does, raising the same exception, and changes nothing below \<open>n\<close>.\<close>

definition keeps_old :: "nat \<Rightarrow> store \<Rightarrow> store \<Rightarrow> bool" where
  "keeps_old n s s' \<longleftrightarrow> fresh s \<le> fresh s' \<and> same_below n s s'"

definition apart :: "nat \<Rightarrow> ref \<Rightarrow> store \<Rightarrow> bool" where
  "apart n b s \<longleftrightarrow>
     n \<le> b \<and> n \<le> castling_ref (objs s b)
     \<and> list_all (\<lambda>r. n \<le> r) (outers s (board_ref (objs s b)))
     \<and> distinct (outers s (board_ref (objs s b)))"

definition sim :: "nat \<Rightarrow> ref \<Rightarrow> ostep \<Rightarrow> step \<Rightarrow> bool" where
  "sim n b f g \<longleftrightarrow>
     (\<forall>s. apart n b s \<longrightarrow>
        (case g (load s b) of
           Inl e \<Rightarrow> f s = Inl e
         | Inr x \<Rightarrow> (\<exists>s'. f s = Inr s' \<and> load s' b = x \<and> apart n b s' \<and> keeps_old n s s')))"

section \<open>The initial position and two games\<close>

text \<open>C5: the freshly constructed board has white to move, all four castling rights and
  no en-passant target, and \<^verbatim>\<open>legal_moves\<close> for white returns exactly 20 moves.\<close>

theorem initial_position_twenty_moves:
  "turn new_board = White
   \<and> castling new_board = \<lparr>wK = True, wQ = True, bK = True, bQ = True\<rparr>
   \<and> en_passant new_board = None
   \<and> (case legal_moves new_board White of Inl e \<Rightarrow> None | Inr ms \<Rightarrow> Some (length ms)) = Some 20"
  by code_simp

text \<open>C4: the four moves f2f3, e7e5, g2g4, d8h4 are each legal for the side to move when
  played from the initial position, and in the position they produce white has no legal
  move and is in check.\<close>

theorem fools_mate_checkmate:
  "(case play_all new_board fools_mate of
      None \<Rightarrow> False
    | Some b \<Rightarrow> legal_moves b White = Inr [] \<and> in_check b White = Inr True)"
  by code_simp

section \<open>Pawn attacks in three positions\<close>

text \<open>C1: on the initial board the white pawns on c2 and e2 stand one rank behind d3 in
  white's advancing direction, on the adjacent files, and \<^verbatim>\<open>is_attacked\<close> answers that
  white does not attack d3; and for d1 the pawn clause fires on the same two pawns, which
  stand in front of d1 and do not attack it. The clause looks at row \<open>r + dr\<close> with
  \<open>dr\<close> the advancing direction, where the attacking pawn stands on row \<open>r - dr\<close>.\<close>

theorem is_attacked_misses_pawn:
  "cell_at new_board 6 2 = Piece White Pawn \<and> cell_at new_board 6 4 = Piece White Pawn
   \<and> pawn_attacks_spec new_board 5 3 White \<and> \<not> is_attacked new_board 5 3 White
   \<and> pawn_hit new_board 7 3 White \<and> \<not> pawn_attacks_spec new_board 7 3 White"
  by code_simp

text \<open>C2: after e2e4, d7d5, e1e2, d5d4, each move taken from \<^verbatim>\<open>legal_moves\<close>, the list
  \<^verbatim>\<open>legal_moves\<close> for white contains the king move e2e3; applying it puts the white king
  on e3, a square the black pawn on d4 attacks.\<close>

theorem legal_move_into_pawn_attack:
  "(case play_all new_board pawn_line of
      None \<Rightarrow> False
    | Some b \<Rightarrow>
        (case legal_moves b White of
           Inl e \<Rightarrow> False
         | Inr ms \<Rightarrow>
             mk_move (6, 4) (5, 4) \<in> set ms
             \<and> (case make_move b (mk_move (6, 4) (5, 4)) of
                  (Some e, b') \<Rightarrow> False
                | (None, b') \<Rightarrow>
                    king_pos b' White = Some (5, 4) \<and> cell_at b' 4 3 = Piece Black Pawn
                    \<and> pawn_attacks_spec b' 5 4 Black)))"
  by code_simp

text \<open>C3: after e2e3, h7h5, f1e2, h5h4, g1f3, h4h3, f3d4, h3g2, each move taken from
  \<^verbatim>\<open>legal_moves\<close>, the black pawn on g2 attacks f1, the square the white king passes
  through when castling king-side, and \<^verbatim>\<open>legal_moves\<close> for white contains that castling
  move.\<close>

theorem castling_through_pawn_attack:
  "(case play_all new_board castle_line of
      None \<Rightarrow> False
    | Some b \<Rightarrow>
        (case legal_moves b White of
           Inl e \<Rightarrow> False
         | Inr ms \<Rightarrow>
             castle (7, 4) (7, 6) \<in> set ms
             \<and> cell_at b 6 6 = Piece Black Pawn \<and> pawn_attacks_spec b 7 5 Black))"
  by code_simp

section \<open>Statements of make_move\<close>

lemma run_append:
  "run (xs @ ys) b = (case run xs b of (None, b1) \<Rightarrow> run ys b1 | (Some e, b1) \<Rightarrow> (Some e, b1))"
  by (induction xs arbitrary: b) (auto split: sum.splits)

lemma run_keeps:
  assumes "list_all (keeps R) ss" and "\<And>x. R x x" and "\<And>x y z. R x y \<Longrightarrow> R y z \<Longrightarrow> R x z"
  shows "R b (snd (run ss b))"
  using assms(1)
proof (induction ss arbitrary: b)
  case Nil
  show ?case using assms(2) by simp
next
  case (Cons s ss)
  show ?case
  proof (cases "s b")
    case (Inl e)
    then show ?thesis using assms(2) by simp
  next
    case (Inr b1)
    have "R b b1" using Cons.prems Inr by (simp add: keeps_def)
    moreover have "R b1 (snd (run ss b1))" using Cons.IH Cons.prems by simp
    ultimately show ?thesis using Inr assms(3) by simp
  qed
qed

lemma set_cell_fields:
  "set_cell rc v x = Inr y \<Longrightarrow>
     castling y = castling x \<and> en_passant y = en_passant x \<and> turn y = turn x"
  by (cases "setitem (board x) (fst rc) (snd rc) v") (auto simp: set_cell_def)

lemma copy_cell_fields:
  "copy_cell d sc x = Inr y \<Longrightarrow>
     castling y = castling x \<and> en_passant y = en_passant x \<and> turn y = turn x"
  by (cases "getitem (board x) (fst sc) (snd sc)") (auto simp: copy_cell_def dest: set_cell_fields)

lemma list_all_when_do: "list_all Q (when_do c ss) \<longleftrightarrow> (c \<longrightarrow> list_all Q ss)"
  by (simp add: when_do_def)

lemma corner_rights_all:
  "Q drop_wK \<Longrightarrow> Q drop_wQ \<Longrightarrow> Q drop_bK \<Longrightarrow> Q drop_bQ \<Longrightarrow> list_all Q (corner_rights sq)"
  by (simp add: corner_rights_def list_all_when_do)

lemma castle_rook_all:
  "(\<And>d sc. Q (copy_cell d sc)) \<Longrightarrow> (\<And>rc v. Q (set_cell rc v)) \<Longrightarrow> list_all Q (castle_rook t)"
  by (simp add: castle_rook_def)

lemma rights_steps_all:
  "Q drop_wK \<Longrightarrow> Q drop_wQ \<Longrightarrow> Q drop_bK \<Longrightarrow> Q drop_bQ \<Longrightarrow> list_all Q (rights_steps mv col p dest)"
  by (simp add: rights_steps_def list_all_when_do corner_rights_all)

lemma grid_steps_all:
  "(\<And>d sc. Q (copy_cell d sc)) \<Longrightarrow> (\<And>rc v. Q (set_cell rc v)) \<Longrightarrow> list_all Q (grid_steps mv col p)"
  by (simp add: grid_steps_def list_all_when_do castle_rook_all)

lemma move_steps_all:
  assumes "\<And>d sc. Q (copy_cell d sc)" and "\<And>rc v. Q (set_cell rc v)"
    and "Q drop_wK" and "Q drop_wQ" and "Q drop_bK" and "Q drop_bQ"
    and "\<And>e. Q (set_en_passant e)" and "Q flip_turn"
  shows "list_all Q (move_steps mv col p dest)"
  using assms
  by (simp add: move_steps_def list_all_when_do rights_steps_all grid_steps_all)

section \<open>Castling rights\<close>

lemma keeps_rights_cells:
  "keeps rights_shrink (set_cell rc v)" "keeps rights_shrink (copy_cell d sc)"
  by (auto simp: keeps_def rights_shrink_def dest: set_cell_fields copy_cell_fields)

lemma keeps_rights_flags:
  "keeps rights_shrink drop_wK" "keeps rights_shrink drop_wQ"
  "keeps rights_shrink drop_bK" "keeps rights_shrink drop_bQ"
  "keeps rights_shrink (set_en_passant e)" "keeps rights_shrink flip_turn"
  by (auto simp: keeps_def rights_shrink_def drop_wK_def drop_wQ_def drop_bK_def drop_bQ_def
      set_en_passant_def flip_turn_def)

lemma run_move_steps_rights: "rights_shrink b (snd (run (move_steps mv col p dest) b))"
  by (rule run_keeps[OF move_steps_all])
     (auto simp: keeps_rights_cells keeps_rights_flags, auto simp: rights_shrink_def)

text \<open>C8: whatever the board and the move, and whether \<^verbatim>\<open>make_move\<close> returns or raises,
  a castling right that holds in the state it leaves held before the call: no flag goes
  from false to true.\<close>

theorem castling_rights_monotone:
  "(wK (castling (snd (make_move b mv))) \<longrightarrow> wK (castling b))
   \<and> (wQ (castling (snd (make_move b mv))) \<longrightarrow> wQ (castling b))
   \<and> (bK (castling (snd (make_move b mv))) \<longrightarrow> bK (castling b))
   \<and> (bQ (castling (snd (make_move b mv))) \<longrightarrow> bQ (castling b))"
  using run_move_steps_rights[of b mv]
  by (auto simp: make_move_def rights_shrink_def split: sum.splits cell.splits)

theorem castling_rights_monotone_witness:
  "wK (castling (snd (make_move new_board (mk_move (6, 4) (4, 4))))) \<and> wK (castling new_board)"
proof -
  have moved: "wK (castling (snd (make_move new_board (mk_move (6, 4) (4, 4)))))"
    by code_simp
  from castling_rights_monotone[of new_board "mk_move (6, 4) (4, 4)"] moved
  show ?thesis by blast
qed

section \<open>Writes to the en-passant field\<close>

lemma keeps_ep:
  "keeps same_en_passant (set_cell rc v)" "keeps same_en_passant (copy_cell d sc)"
  "keeps same_en_passant drop_wK" "keeps same_en_passant drop_wQ"
  "keeps same_en_passant drop_bK" "keeps same_en_passant drop_bQ"
  by (auto simp: keeps_def same_en_passant_def drop_wK_def drop_wQ_def drop_bK_def drop_bQ_def
      dest: set_cell_fields copy_cell_fields)

lemma middle_steps_ep:
  "same_en_passant x (snd (run (rights_steps mv col p dest @ grid_steps mv col p) x))"
proof (rule run_keeps)
  show "list_all (keeps same_en_passant) (rights_steps mv col p dest @ grid_steps mv col p)"
    by (simp add: rights_steps_all grid_steps_all keeps_ep)
qed (auto simp: same_en_passant_def)

lemma run_move_steps_ep:
  assumes "run (move_steps mv col p dest) b = (None, b')"
  shows "en_passant b' =
           (if p = Pawn \<and> \<bar>fst (to mv) - fst (fr mv)\<bar> = 2
            then Some ((fst (to mv) + fst (fr mv)) div 2, snd (fr mv)) else None)"
proof -
  define b0 where "b0 = b\<lparr>en_passant := None\<rparr>"
  define M where "M = rights_steps mv col p dest @ grid_steps mv col p"
  define T where "T = when_do (p = Pawn \<and> \<bar>fst (to mv) - fst (fr mv)\<bar> = 2)
         [set_en_passant (Some ((fst (to mv) + fst (fr mv)) div 2, snd (fr mv)))] @ [flip_turn]"
  have split: "run (move_steps mv col p dest) b = run (M @ T) b0"
    by (simp add: move_steps_def M_def T_def b0_def set_en_passant_def)
  obtain e1 b1 where r1: "run M b0 = (e1, b1)" by fastforce
  have "same_en_passant b0 b1" using middle_steps_ep[of b0 mv col p dest] r1 by (simp add: M_def)
  then have ep1: "en_passant b1 = None" by (simp add: same_en_passant_def b0_def)
  from assms split r1 have e1: "e1 = None" and rT: "run T b1 = (None, b')"
    by (auto simp: run_append split: option.splits)
  from rT ep1 show ?thesis
    by (auto simp: T_def when_do_def set_en_passant_def flip_turn_def split: if_splits)
qed

lemma make_move_ok_cases:
  assumes "make_move b mv = (None, b')"
  obtains col p dest where "getitem (board b) (fst (fr mv)) (snd (fr mv)) = Inr (Piece col p)"
    and "getitem (board b) (fst (to mv)) (snd (to mv)) = Inr dest"
    and "run (move_steps mv col p dest) b = (None, b')"
  using assms by (auto simp: make_move_def split: sum.splits cell.splits)

section \<open>Writes to the grid\<close>

lemma run_sure:
  assumes "list_all (sure R) ss" and "\<And>x. R x x" and "\<And>x y z. R x y \<Longrightarrow> R y z \<Longrightarrow> R x z"
  shows "\<exists>y. run ss b = (None, y) \<and> R b y"
  using assms(1)
proof (induction ss arbitrary: b)
  case Nil
  show ?case using assms(2) by simp
next
  case (Cons s ss)
  from Cons.prems obtain b1 where s: "s b = Inr b1" and r: "R b b1"
    by (auto simp: sure_def)
  from Cons.IH Cons.prems obtain y where "run ss b1 = (None, y)" and "R b1 y" by auto
  with s r assms(3) show ?case by auto
qed

lemma py_idx_less: "py_idx xs i = Some k \<Longrightarrow> k < length xs"
  by (auto simp: py_idx_def split: if_splits)

lemma py_idx_in_range: "0 \<le> i \<Longrightarrow> i < int (length xs) \<Longrightarrow> py_idx xs i = Some (nat i)"
  by (simp add: py_idx_def)

lemma wf_grid_row: "wf_grid g \<Longrightarrow> i < 8 \<Longrightarrow> length (g ! i) = 8"
  by (simp add: wf_grid_def list_all_length)

lemma wf_grid_update: "wf_grid g \<Longrightarrow> i < 8 \<Longrightarrow> wf_grid (g[i := (g ! i)[j := v]])"
  by (auto simp: wf_grid_def list_all_length nth_list_update)

lemma idx_wf:
  assumes "wf_grid g" and "in_bounds r c"
  shows "py_idx g r = Some (nat r)" and "py_idx (g ! nat r) c = Some (nat c)"
proof -
  have len: "length g = 8" using assms(1) by (simp add: wf_grid_def)
  have r: "0 \<le> r" "r < 8" and c: "0 \<le> c" "c < 8" using assms(2) by (simp_all add: in_bounds_def)
  have row: "length (g ! nat r) = 8" using assms(1) r by (simp add: wf_grid_row)
  show "py_idx g r = Some (nat r)" using r len by (simp add: py_idx_in_range)
  show "py_idx (g ! nat r) c = Some (nat c)" using c row by (simp add: py_idx_in_range)
qed

lemma getitem_wf:
  "wf_grid g \<Longrightarrow> in_bounds r c \<Longrightarrow> getitem g r c = Inr (g ! nat r ! nat c)"
  by (simp add: getitem_def idx_wf)

lemma setitem_wf:
  "wf_grid g \<Longrightarrow> in_bounds r c \<Longrightarrow> setitem g r c v = Inr (g[nat r := (g ! nat r)[nat c := v]])"
  by (simp add: setitem_def idx_wf)

lemma setitem_keeps_wf:
  assumes "wf_grid g" and "setitem g r c v = Inr g'"
  shows "wf_grid g'"
proof -
  from assms(2) obtain i j where i: "py_idx g r = Some i" and g': "g' = g[i := (g ! i)[j := v]]"
    by (auto simp: setitem_def split: option.splits)
  have "i < 8" using py_idx_less[OF i] assms(1) by (simp add: wf_grid_def)
  then show ?thesis using assms(1) g' by (simp add: wf_grid_update)
qed

lemma grid_update_nth:
  assumes "wf_grid g" and "i < 8" and "j < 8" and "i' < 8" and "j' < 8"
  shows "g[i := (g ! i)[j := v]] ! i' ! j' = (if i' = i \<and> j' = j then v else g ! i' ! j')"
proof -
  have "length g = 8" and "length (g ! i) = 8"
    using assms(1,2) by (simp_all add: wf_grid_def wf_grid_row)
  then show ?thesis using assms(2-5) by (auto simp: nth_list_update)
qed

lemma set_cell_wf:
  assumes "wf_grid (board x)" and "in_bounds r c"
  shows "set_cell (r, c) v x = Inr (x\<lparr>board := (board x)[nat r := (board x ! nat r)[nat c := v]]\<rparr>)"
  using assms by (simp add: set_cell_def setitem_wf)

lemma keeps_wf_steps:
  "keeps keeps_wf (set_cell rc v)" "keeps keeps_wf (copy_cell d sc)"
  "keeps keeps_wf drop_wK" "keeps keeps_wf drop_wQ" "keeps keeps_wf drop_bK" "keeps keeps_wf drop_bQ"
  "keeps keeps_wf (set_en_passant e)" "keeps keeps_wf flip_turn"
  by (auto simp: keeps_def keeps_wf_def set_cell_def copy_cell_def drop_wK_def drop_wQ_def
      drop_bK_def drop_bQ_def set_en_passant_def flip_turn_def
      split: sum.splits dest: setitem_keeps_wf)

lemma sure_flags:
  "sure same_board drop_wK" "sure same_board drop_wQ" "sure same_board drop_bK"
  "sure same_board drop_bQ" "sure same_board (set_en_passant e)" "sure same_board flip_turn"
  by (auto simp: sure_def same_board_def drop_wK_def drop_wQ_def drop_bK_def drop_bQ_def
      set_en_passant_def flip_turn_def)

lemma rights_steps_sure:
  "\<exists>y. run (rights_steps mv col p dest) x = (None, y) \<and> same_board x y"
  by (rule run_sure) (auto simp: rights_steps_all sure_flags, auto simp: same_board_def)


lemma in_bounds_nat: "in_bounds r c \<Longrightarrow> nat r < 8 \<and> nat c < 8"
  unfolding in_bounds_def by linarith

lemma set_cell_write:
  "wf_grid (board x) \<Longrightarrow> in_bounds (fst rc) (snd rc) \<Longrightarrow> set_cell rc v x = Inr (write_cell rc v x)"
  by (simp add: set_cell_def setitem_wf write_cell_def)

lemma write_cell_wf:
  "wf_grid (board x) \<Longrightarrow> in_bounds (fst rc) (snd rc) \<Longrightarrow> wf_grid (board (write_cell rc v x))"
  by (simp add: write_cell_def wf_grid_update in_bounds_nat)

lemma cell_at_write:
  assumes "wf_grid (board x)" and "in_bounds (fst rc) (snd rc)" and "in_bounds r c"
  shows "cell_at (write_cell rc v x) r c = (if (r, c) = rc then v else cell_at x r c)"
proof -
  have "nat (fst rc) < 8" "nat (snd rc) < 8" "nat r < 8" "nat c < 8"
    using assms(2,3) by (simp_all add: in_bounds_nat)
  moreover have "(nat r = nat (fst rc) \<and> nat c = nat (snd rc)) \<longleftrightarrow> (r, c) = rc"
    using assms(2,3) by (cases rc) (auto simp: in_bounds_def)
  ultimately show ?thesis
    using assms(1) by (simp add: cell_at_def write_cell_def grid_update_nth)
qed

lemma tail_steps_sure:
  "\<exists>y. run (when_do c [set_en_passant e] @ [flip_turn]) x = (None, y) \<and> same_board x y"
  by (rule run_sure) (auto simp: list_all_when_do sure_flags, auto simp: same_board_def)

lemma make_move_plain:
  assumes wf: "wf_grid (board b)"
    and src: "in_bounds (fst (fr mv)) (snd (fr mv))"
    and dst: "in_bounds (fst (to mv)) (snd (to mv))"
    and occ: "cell_at b (fst (fr mv)) (snd (fr mv)) = Piece col p"
    and plain: "\<not> is_castle mv" "\<not> is_en_passant mv"
      "\<not> (p = Pawn \<and> (fst (to mv) = 0 \<or> fst (to mv) = 7))"
  shows "fst (make_move b mv) = None
     \<and> board (snd (make_move b mv))
         = board (write_cell (to mv) (Piece col p) (write_cell (fr mv) Empty b))"
proof -
  define b0 where "b0 = b\<lparr>en_passant := None\<rparr>"
  define dest where "dest = cell_at b (fst (to mv)) (snd (to mv))"
  define tail where "tail = when_do (p = Pawn \<and> \<bar>fst (to mv) - fst (fr mv)\<bar> = 2)
         [set_en_passant (Some ((fst (to mv) + fst (fr mv)) div 2, snd (fr mv)))] @ [flip_turn]"
  have g1: "getitem (board b) (fst (fr mv)) (snd (fr mv)) = Inr (Piece col p)"
    using wf src occ by (simp add: getitem_wf cell_at_def)
  have g2: "getitem (board b) (fst (to mv)) (snd (to mv)) = Inr dest"
    using wf dst by (simp add: getitem_wf cell_at_def dest_def)
  have mm: "make_move b mv = run (move_steps mv col p dest) b"
    by (simp add: make_move_def g1 g2)
  have grid: "grid_steps mv col p = [set_cell (fr mv) Empty, set_cell (to mv) (Piece col p)]"
    using plain by (simp add: grid_steps_def when_do_def)
  have steps: "run (move_steps mv col p dest) b
      = run (rights_steps mv col p dest @ [set_cell (fr mv) Empty, set_cell (to mv) (Piece col p)] @ tail) b0"
    by (simp add: move_steps_def grid tail_def b0_def set_en_passant_def)
  obtain b1 where r1: "run (rights_steps mv col p dest) b0 = (None, b1)" and s1: "board b1 = board b"
    using rights_steps_sure[of mv col p dest b0] by (auto simp: same_board_def b0_def)
  have wf1: "wf_grid (board b1)" using wf s1 by simp
  define b2 where "b2 = write_cell (fr mv) Empty b1"
  define b3 where "b3 = write_cell (to mv) (Piece col p) b2"
  have wf2: "wf_grid (board b2)" using wf1 src by (simp add: b2_def write_cell_wf)
  have r2: "run [set_cell (fr mv) Empty, set_cell (to mv) (Piece col p)] b1 = (None, b3)"
    using wf1 wf2 src dst by (simp add: set_cell_write b2_def[symmetric] b3_def)
  obtain b4 where r3: "run tail b3 = (None, b4)" and s3: "board b4 = board b3"
    using tail_steps_sure[of _ _ b3] by (auto simp: same_board_def tail_def)
  have "run (rights_steps mv col p dest
          @ [set_cell (fr mv) Empty, set_cell (to mv) (Piece col p)] @ tail) b0 = (None, b4)"
    by (simp only: run_append r1 r2 r3 case_prod_conv option.case)
  then have "run (move_steps mv col p dest) b = (None, b4)"
    by (simp only: steps)
  moreover have "board b3 = board (write_cell (to mv) (Piece col p) (write_cell (fr mv) Empty b))"
    by (simp add: b3_def b2_def write_cell_def s1)
  ultimately show ?thesis using mm s3 by simp
qed

text \<open>A move between two different squares of the 8 by 8 grid whose source holds a piece,
  and which is no castle, no en-passant capture and no pawn move onto row 0 or row 7:
  \<^verbatim>\<open>make_move\<close> returns, the source cell is empty, the destination holds the piece of the
  source and every other cell is as before.\<close>

lemma make_move_plain_cells:
  assumes wf: "wf_grid (board b)"
    and src: "in_bounds (fst (fr mv)) (snd (fr mv))"
    and dst: "in_bounds (fst (to mv)) (snd (to mv))"
    and ne: "fr mv \<noteq> to mv"
    and occ: "cell_at b (fst (fr mv)) (snd (fr mv)) = Piece col p"
    and plain: "\<not> is_castle mv" "\<not> is_en_passant mv"
      "\<not> (p = Pawn \<and> (fst (to mv) = 0 \<or> fst (to mv) = 7))"
  shows "fst (make_move b mv) = None
     \<and> cell_at (snd (make_move b mv)) (fst (fr mv)) (snd (fr mv)) = Empty
     \<and> cell_at (snd (make_move b mv)) (fst (to mv)) (snd (to mv)) = Piece col p
     \<and> (\<forall>r c. in_bounds r c \<longrightarrow> (r, c) \<noteq> fr mv \<longrightarrow> (r, c) \<noteq> to mv
            \<longrightarrow> cell_at (snd (make_move b mv)) r c = cell_at b r c)"
proof -
  define b2 where "b2 = write_cell (fr mv) Empty b"
  define b3 where "b3 = write_cell (to mv) (Piece col p) b2"
  have wf2: "wf_grid (board b2)" using wf src by (simp add: b2_def write_cell_wf)
  have res: "fst (make_move b mv) = None" "board (snd (make_move b mv)) = board b3"
    using make_move_plain[OF wf src dst occ plain] by (simp_all add: b3_def b2_def)
  have cell: "cell_at (snd (make_move b mv)) r c = cell_at b3 r c" for r c
    by (simp add: cell_at_def res(2))
  have c3: "cell_at b3 r c = (if (r, c) = to mv then Piece col p
                               else if (r, c) = fr mv then Empty else cell_at b r c)"
    if "in_bounds r c" for r c
    using that wf wf2 src dst by (simp add: b3_def b2_def cell_at_write)
  show ?thesis using res(1) ne src dst by (auto simp: cell c3)
qed

section \<open>Shape of the generated moves\<close>

text \<open>What \<^verbatim>\<open>generate_pseudo\<close> emits: every move comes from one square of the board that
  holds a piece of the colour asked for; apart from the castling moves, whose source is
  the literal king square, the source of the move is that square; and the destination of
  a move that is neither a castle nor an en-passant capture is a square of the board
  that holds no piece of that colour.\<close>

lemma set_squares: "set squares = {(r, c). in_bounds r c}"
proof -
  have "set squares = {0..7} \<times> {0..7}"
    by (auto simp: squares_def)
  also have "\<dots> = {(r, c). in_bounds r c}"
    by (auto simp: in_bounds_def)
  finally show ?thesis .
qed

lemma knight_moves_fr: "m \<in> set (knight_moves b col r c) \<Longrightarrow> fr m = (r, c)"
  by (auto simp: knight_moves_def mk_move_def split: if_splits)

lemma king_steps_fr: "m \<in> set (king_steps b col r c) \<Longrightarrow> fr m = (r, c)"
  by (auto simp: king_steps_def mk_move_def split: if_splits)

lemma slide_fr: "m \<in> set (slide b col src rr cc dr dc) \<Longrightarrow> fr m = src"
proof (induction b col src rr cc dr dc rule: slide.induct)
  case (1 b col src rr cc dr dc)
  from "1.prems" show ?case
    by (subst (asm) slide.simps) (auto simp: mk_move_def "1.IH" split: if_splits)
qed

lemma slider_moves_fr: "m \<in> set (slider_moves b col p r c) \<Longrightarrow> fr m = (r, c)"
  by (auto simp: slider_moves_def dest: slide_fr)

lemma pawn_moves_fr: "m \<in> set (pawn_moves b col r c) \<Longrightarrow> fr m = (r, c)"
  by (auto simp: pawn_moves_def Let_def promo_moves_def mk_move_def split: if_splits option.splits)

lemma castle_moves_shape:
  "m \<in> set (castle_moves b col) \<Longrightarrow>
     is_castle m \<and> fr m = (home_rank col, 4) \<and> fst (to m) = home_rank col"
  by (auto simp: castle_moves_def castle_def mk_move_def home_rank_def
      split: sum.splits bool.splits if_splits)

lemma piece_moves_fr:
  "m \<in> set (piece_moves b col r c) \<Longrightarrow>
     fr m = (r, c) \<or> (is_castle m \<and> fr m = (home_rank col, 4) \<and> fst (to m) = home_rank col)"
  by (auto simp: piece_moves_def split: if_splits cell.splits
      dest: knight_moves_fr king_steps_fr slider_moves_fr pawn_moves_fr castle_moves_shape)

lemma generate_pseudo_from:
  assumes "m \<in> set (generate_pseudo b col)"
  obtains r c where "in_bounds r c" and "m \<in> set (piece_moves b col r c)"
  using assms by (auto simp: generate_pseudo_def set_squares)

lemma piece_moves_occupied:
  assumes "m \<in> set (piece_moves b col r c)"
  obtains p where "cell_at b r c = Piece col p"
  using assms
  by (cases "cell_at b r c") (auto simp: piece_moves_def color_at_def piece_def split: if_splits)

lemma piece_moves_pawn:
  "m \<in> set (piece_moves b col r c) \<Longrightarrow> cell_at b r c = Piece x Pawn \<Longrightarrow>
     m \<in> set (pawn_moves b col r c)"
  by (simp add: piece_moves_def split: if_splits)

lemma pawn_moves_rows:
  assumes "m \<in> set (pawn_moves b col r c)"
  shows "fst (to m) = r + forward col
       \<or> (fst (to m) = r + 2 * forward col \<and> snd (to m) = c \<and> r = start_rank col)"
  using assms
  by (auto simp: pawn_moves_def Let_def promo_moves_def mk_move_def forward_def start_rank_def
      split: if_splits option.splits)

lemma forward_cases: "forward col = 1 \<or> forward col = -1"
  by (simp add: forward_def)

lemma pawn_moves_double:
  assumes "m \<in> set (pawn_moves b col r c)"
  shows "\<bar>fst (to m) - r\<bar> = 2 \<longleftrightarrow>
      r = start_rank col \<and> snd (to m) = c \<and> fst (to m) = r + 2 * forward col"
  using pawn_moves_rows[OF assms] forward_cases[of col] by auto

lemma make_move_wf:
  assumes "wf_grid (board b)"
  shows "wf_grid (board (snd (make_move b mv)))"
proof -
  have "keeps_wf x (snd (run (move_steps m col p dest) x))" for x m col p dest
    by (rule run_keeps[OF move_steps_all]) (auto simp: keeps_wf_steps, auto simp: keeps_wf_def)
  then show ?thesis using assms
    by (auto simp: make_move_def keeps_wf_def split: sum.splits cell.splits)
qed

lemma color_at_cell: "color_at b r c = (case cell_at b r c of Empty \<Rightarrow> None | Piece x k \<Rightarrow> Some x)"
  by (simp add: color_at_def piece_def split: cell.splits)

lemma color_at_empty: "cell_at b r c = Empty \<Longrightarrow> color_at b r c = None"
  by (simp add: color_at_cell)

lemma knight_moves_to:
  "m \<in> set (knight_moves b col r c) \<Longrightarrow>
     in_bounds (fst (to m)) (snd (to m)) \<and> color_at b (fst (to m)) (snd (to m)) \<noteq> Some col"
  by (auto simp: knight_moves_def mk_move_def split: if_splits)

lemma king_steps_to:
  "m \<in> set (king_steps b col r c) \<Longrightarrow>
     in_bounds (fst (to m)) (snd (to m)) \<and> color_at b (fst (to m)) (snd (to m)) \<noteq> Some col"
  by (auto simp: king_steps_def mk_move_def split: if_splits)

lemma slide_to:
  "m \<in> set (slide b col src rr cc dr dc) \<Longrightarrow>
     in_bounds (fst (to m)) (snd (to m)) \<and> color_at b (fst (to m)) (snd (to m)) \<noteq> Some col"
proof (induction b col src rr cc dr dc rule: slide.induct)
  case (1 b col src rr cc dr dc)
  from "1.prems" show ?case
    by (subst (asm) slide.simps)
       (auto simp: mk_move_def "1.IH" color_at_empty split: if_splits)
qed

lemma slider_moves_to:
  "m \<in> set (slider_moves b col p r c) \<Longrightarrow>
     in_bounds (fst (to m)) (snd (to m)) \<and> color_at b (fst (to m)) (snd (to m)) \<noteq> Some col"
  by (auto simp: slider_moves_def dest: slide_to)

lemma pawn_moves_cases:
  assumes "m \<in> set (pawn_moves b col r c)"
  shows "(in_bounds (r + forward col) c \<and> cell_at b (r + forward col) c = Empty
            \<and> to m = (r + forward col, c))
       \<or> (in_bounds (r + forward col) c \<and> r = start_rank col
            \<and> cell_at b (r + 2 * forward col) c = Empty \<and> to m = (r + 2 * forward col, c))
       \<or> (\<exists>dc. in_bounds (r + forward col) (c + dc)
            \<and> color_at b (r + forward col) (c + dc) \<noteq> Some col \<and> to m = (r + forward col, c + dc))
       \<or> is_en_passant m"
proof (cases col)
  case White
  with assms show ?thesis
    by (auto simp: pawn_moves_def Let_def promo_moves_def mk_move_def forward_def start_rank_def
        split: if_splits option.splits)
next
  case Black
  with assms show ?thesis
    by (auto simp: pawn_moves_def Let_def promo_moves_def mk_move_def forward_def start_rank_def
        split: if_splits option.splits)
qed

lemma double_push_in_bounds:
  "in_bounds (r + forward col) c \<Longrightarrow> r = start_rank col \<Longrightarrow> in_bounds (r + 2 * forward col) c"
  by (auto simp: in_bounds_def forward_def start_rank_def split: if_splits)

lemma pawn_moves_to:
  assumes "m \<in> set (pawn_moves b col r c)" and "\<not> is_en_passant m"
  shows "in_bounds (fst (to m)) (snd (to m)) \<and> color_at b (fst (to m)) (snd (to m)) \<noteq> Some col"
  using pawn_moves_cases[OF assms(1)] assms(2)
  by (auto simp: color_at_empty double_push_in_bounds)

lemma piece_moves_to:
  assumes "m \<in> set (piece_moves b col r c)" and "\<not> is_castle m" and "\<not> is_en_passant m"
  shows "in_bounds (fst (to m)) (snd (to m)) \<and> color_at b (fst (to m)) (snd (to m)) \<noteq> Some col"
  using assms
  by (auto simp: piece_moves_def split: if_splits cell.splits
      dest: knight_moves_to king_steps_to slider_moves_to pawn_moves_to castle_moves_shape)

lemma pawn_moves_edge:
  assumes "m \<in> set (pawn_moves b col r c)" and "in_bounds r c"
    and "fst (to m) = 0 \<or> fst (to m) = 7"
  shows "fst (to m) = far_rank col"
  using pawn_moves_rows[OF assms(1)] assms(2,3)
  by (auto simp: forward_def start_rank_def far_rank_def in_bounds_def split: if_splits)

section \<open>The en-passant window\<close>

lemma generated_en_passant:
  assumes wf: "wf_grid (board b)"
    and gen: "mv \<in> set (generate_pseudo b col)"
    and ok: "make_move b mv = (None, b1)"
  shows "en_passant b1 = (if double_push b mv then Some (passed_over col mv) else None)"
proof -
  from gen obtain r c where rc: "in_bounds r c" and mem: "mv \<in> set (piece_moves b col r c)"
    by (rule generate_pseudo_from)
  from ok obtain colp p dest
    where g1: "getitem (board b) (fst (fr mv)) (snd (fr mv)) = Inr (Piece colp p)"
      and run: "run (move_steps mv colp p dest) b = (None, b1)"
    by (rule make_move_ok_cases)
  have ep: "en_passant b1 =
      (if p = Pawn \<and> \<bar>fst (to mv) - fst (fr mv)\<bar> = 2
       then Some ((fst (to mv) + fst (fr mv)) div 2, snd (fr mv)) else None)"
    using run by (rule run_move_steps_ep)
  from piece_moves_fr[OF mem] show ?thesis
  proof
    assume frmv: "fr mv = (r, c)"
    from mem obtain q where occ: "cell_at b r c = Piece col q" by (rule piece_moves_occupied)
    have "getitem (board b) r c = Inr (Piece col q)"
      using wf rc occ by (simp add: getitem_wf cell_at_def)
    with g1 frmv have same: "colp = col" "p = q" by simp_all
    show ?thesis
    proof (cases "q = Pawn")
      case True
      then have "mv \<in> set (pawn_moves b col r c)" using mem occ by (simp add: piece_moves_pawn)
      from pawn_moves_double[OF this] show ?thesis
        using ep same True occ frmv
        by (auto simp: double_push_def passed_over_def)
    next
      case False
      then show ?thesis using ep same occ frmv by (simp add: double_push_def)
    qed
  next
    assume castle: "is_castle mv \<and> fr mv = (home_rank col, 4) \<and> fst (to mv) = home_rank col"
    then have "fst (to mv) = fst (fr mv)" by simp
    then have "\<not> double_push b mv"
      by (auto simp: double_push_def forward_def split: cell.splits)
    moreover have "en_passant b1 = None" using ep \<open>fst (to mv) = fst (fr mv)\<close> by simp
    ultimately show ?thesis by simp
  qed
qed

text \<open>C6: on the 8 by 8 grid, for every move that \<^verbatim>\<open>generate_pseudo\<close> emits and
  \<^verbatim>\<open>make_move\<close> applies: if the move is a pawn double push (a pawn on the start rank of
  its colour going two squares straight ahead), the en-passant field of the resulting
  board is the square passed over, the one directly ahead of the source; after every
  other move it is None. So whatever the field holds after this move, the next move
  applied clears it unless that move is a double push itself.\<close>

theorem en_passant_window:
  assumes wf: "wf_grid (board b)"
    and gen: "mv \<in> set (generate_pseudo b col)"
    and ok: "make_move b mv = (None, b1)"
  shows "en_passant b1 = (if double_push b mv then Some (passed_over col mv) else None)
       \<and> (\<forall>col' mv' b2. mv' \<in> set (generate_pseudo b1 col') \<longrightarrow> make_move b1 mv' = (None, b2)
             \<longrightarrow> \<not> double_push b1 mv' \<longrightarrow> en_passant b2 = None)"
proof -
  have wf1: "wf_grid (board b1)" using make_move_wf[OF wf, of mv] ok by simp
  show ?thesis
    using generated_en_passant[OF wf gen ok] generated_en_passant[OF wf1] by auto
qed

theorem en_passant_window_witness:
  "(let m1 = mk_move (6, 4) (4, 4); m2 = mk_move (0, 6) (2, 5);
        b1 = snd (make_move new_board m1); b2 = snd (make_move b1 m2)
    in wf_grid (board new_board) \<and> m1 \<in> set (generate_pseudo new_board White)
       \<and> fst (make_move new_board m1) = None \<and> double_push new_board m1
       \<and> en_passant b1 = Some (5, 4)
       \<and> m2 \<in> set (generate_pseudo b1 Black) \<and> fst (make_move b1 m2) = None
       \<and> \<not> double_push b1 m2 \<and> en_passant b2 = None)"
proof -
  define m1 where "m1 = mk_move (6, 4) (4, 4)"
  define m2 where "m2 = mk_move (0, 6) (2, 5)"
  define b1 where "b1 = snd (make_move new_board m1)"
  define b2 where "b2 = snd (make_move b1 m2)"
  have wf: "wf_grid (board new_board)" by code_simp
  have g1: "m1 \<in> set (generate_pseudo new_board White)" unfolding m1_def by code_simp
  have g2: "m2 \<in> set (generate_pseudo b1 Black)" unfolding b1_def m1_def m2_def by code_simp
  have ok1: "fst (make_move new_board m1) = None" unfolding m1_def by code_simp
  have ok2: "fst (make_move b1 m2) = None" unfolding b1_def m1_def m2_def by code_simp
  have dp1: "double_push new_board m1" unfolding m1_def by code_simp
  have dp2: "\<not> double_push b1 m2" unfolding b1_def m1_def m2_def by code_simp
  have po: "passed_over White m1 = (5, 4)" unfolding m1_def by code_simp
  have h1: "make_move new_board m1 = (None, b1)" using ok1 by (simp add: b1_def prod_eq_iff)
  have h2: "make_move b1 m2 = (None, b2)" using ok2 by (simp add: b2_def prod_eq_iff)
  from en_passant_window[OF wf g1 h1] dp1 po g2 h2 dp2
  have "en_passant b1 = Some (5, 4)" and "en_passant b2 = None" by auto
  with wf g1 g2 ok1 ok2 dp1 dp2 show ?thesis
    by (simp add: Let_def m1_def m2_def b1_def b2_def)
qed

section \<open>Plain moves\<close>

text \<open>C10: on the 8 by 8 grid, for every move that \<^verbatim>\<open>generate_pseudo\<close> emits and that is
  no castle, no en-passant capture and no pawn move onto the farthest rank,
  \<^verbatim>\<open>make_move\<close> returns without an exception; the source square was occupied and is
  empty afterwards, the destination holds the piece that stood on the source, the two
  squares are different, and the cells of the grid that differ from before are exactly
  these two.\<close>

theorem plain_move_two_cells:
  assumes wf: "wf_grid (board b)"
    and gen: "mv \<in> set (generate_pseudo b col)"
    and plain: "\<not> is_castle mv" "\<not> is_en_passant mv"
      "\<not> (cell_at b (fst (fr mv)) (snd (fr mv)) = Piece col Pawn \<and> fst (to mv) = far_rank col)"
  shows "fst (make_move b mv) = None
     \<and> cell_at b (fst (fr mv)) (snd (fr mv)) \<noteq> Empty
     \<and> cell_at (snd (make_move b mv)) (fst (fr mv)) (snd (fr mv)) = Empty
     \<and> cell_at (snd (make_move b mv)) (fst (to mv)) (snd (to mv))
         = cell_at b (fst (fr mv)) (snd (fr mv))
     \<and> fr mv \<noteq> to mv
     \<and> {rc \<in> set squares. cell_at (snd (make_move b mv)) (fst rc) (snd rc) \<noteq> cell_at b (fst rc) (snd rc)}
         = {fr mv, to mv}"
proof -
  from gen obtain r c where rc: "in_bounds r c" and mem: "mv \<in> set (piece_moves b col r c)"
    by (rule generate_pseudo_from)
  have frmv: "fr mv = (r, c)" using piece_moves_fr[OF mem] plain(1) by auto
  from mem obtain p where occ: "cell_at b r c = Piece col p" by (rule piece_moves_occupied)
  have dst: "in_bounds (fst (to mv)) (snd (to mv))"
    and free: "color_at b (fst (to mv)) (snd (to mv)) \<noteq> Some col"
    using piece_moves_to[OF mem plain(1,2)] by simp_all
  have ne: "fr mv \<noteq> to mv"
  proof
    assume "fr mv = to mv"
    then have "to mv = (r, c)" using frmv by simp
    then have "color_at b (fst (to mv)) (snd (to mv)) = Some col"
      using occ by (simp add: color_at_cell)
    with free show False by simp
  qed
  have edge: "\<not> (p = Pawn \<and> (fst (to mv) = 0 \<or> fst (to mv) = 7))"
  proof
    assume a: "p = Pawn \<and> (fst (to mv) = 0 \<or> fst (to mv) = 7)"
    have pm: "mv \<in> set (pawn_moves b col r c)"
      using piece_moves_pawn[OF mem, of col] occ a by simp
    have "fst (to mv) = far_rank col" using pawn_moves_edge[OF pm rc] a by simp
    then show False using plain(3) a occ frmv by simp
  qed
  have src: "in_bounds (fst (fr mv)) (snd (fr mv))" and occ': "cell_at b (fst (fr mv)) (snd (fr mv)) = Piece col p"
    using rc occ frmv by simp_all
  let ?b' = "snd (make_move b mv)"
  note cells = make_move_plain_cells[OF wf src dst ne occ' plain(1,2) edge]
  have c1: "fst (make_move b mv) = None"
    and c2: "cell_at ?b' (fst (fr mv)) (snd (fr mv)) = Empty"
    and c3: "cell_at ?b' (fst (to mv)) (snd (to mv)) = Piece col p"
    using cells by blast+
  have c4: "cell_at ?b' x y = cell_at b x y"
    if "in_bounds x y" "(x, y) \<noteq> fr mv" "(x, y) \<noteq> to mv" for x y
    using cells that by blast
  have old: "cell_at b (fst (to mv)) (snd (to mv)) \<noteq> Piece col p"
    using free by (auto simp: color_at_cell)
  have changed: "cell_at ?b' (fst x) (snd x) \<noteq> cell_at b (fst x) (snd x) \<longleftrightarrow> x = fr mv \<or> x = to mv"
    if "x \<in> set squares" for x
  proof (cases "x = fr mv \<or> x = to mv")
    case True
    then show ?thesis using c2 c3 occ' old by auto
  next
    case False
    have "in_bounds (fst x) (snd x)" using that by (auto simp: set_squares)
    then have "cell_at ?b' (fst x) (snd x) = cell_at b (fst x) (snd x)"
      using False by (intro c4) (cases x, simp)+
    then show ?thesis using False by simp
  qed
  have "fr mv \<in> set squares" "to mv \<in> set squares"
    using src dst by (auto simp: set_squares)
  then have "{rc \<in> set squares. cell_at ?b' (fst rc) (snd rc) \<noteq> cell_at b (fst rc) (snd rc)}
      = {fr mv, to mv}"
    using changed by blast
  then show ?thesis using c1 c2 c3 ne occ' by simp
qed

theorem plain_move_two_cells_witness:
  "wf_grid (board new_board) \<and> mk_move (7, 1) (5, 2) \<in> set (generate_pseudo new_board White)
   \<and> fst (make_move new_board (mk_move (7, 1) (5, 2))) = None
   \<and> cell_at (snd (make_move new_board (mk_move (7, 1) (5, 2)))) 7 1 = Empty
   \<and> cell_at (snd (make_move new_board (mk_move (7, 1) (5, 2)))) 5 2 = Piece White Knight
   \<and> {rc \<in> set squares.
        cell_at (snd (make_move new_board (mk_move (7, 1) (5, 2)))) (fst rc) (snd rc)
          \<noteq> cell_at new_board (fst rc) (snd rc)} = {(7, 1), (5, 2)}"
proof -
  define mv where "mv = mk_move (7, 1) (5, 2)"
  have f: "fr mv = (7, 1)" "to mv = (5, 2)" "\<not> is_castle mv" "\<not> is_en_passant mv"
    by (simp_all add: mv_def mk_move_def)
  have wf: "wf_grid (board new_board)" by code_simp
  have gen: "mv \<in> set (generate_pseudo new_board White)" unfolding mv_def by code_simp
  have occ: "cell_at new_board 7 1 = Piece White Knight" by code_simp
  have plain: "\<not> (cell_at new_board (fst (fr mv)) (snd (fr mv)) = Piece White Pawn
      \<and> fst (to mv) = far_rank White)"
    using occ f by simp
  from plain_move_two_cells[OF wf gen f(3,4) plain] wf gen occ f
  show ?thesis by (simp add: mv_def[symmetric])
qed

section \<open>Boards of a game\<close>

text \<open>The moves of \<^verbatim>\<open>legal_moves\<close> are moves of \<^verbatim>\<open>generate_pseudo\<close>, and a generated
  move applied to a board with an 8 by 8 grid and an en-passant target on the third or
  sixth rank gives such a board again; so every board of a game is one. A square that
  holds a king of the colour makes \<^verbatim>\<open>in_check\<close> return.\<close>

lemma legal_loop_subset: "legal_loop b col ms = Inr out \<Longrightarrow> set out \<subseteq> set ms"
proof (induction ms arbitrary: out)
  case Nil
  then show ?case by simp
next
  case (Cons m ms)
  from Cons.prems obtain out' where "legal_loop b col ms = Inr out'" and "set out \<subseteq> insert m (set out')"
    by (auto split: prod.splits option.splits sum.splits if_splits)
  with Cons.IH show ?case by auto
qed

lemma legal_moves_generated:
  "legal_moves b col = Inr ms \<Longrightarrow> mv \<in> set ms \<Longrightarrow> mv \<in> set (generate_pseudo b col)"
  using legal_loop_subset[of b col "generate_pseudo b col" ms] by (auto simp: legal_moves_def)

lemma double_push_target:
  assumes gen: "mv \<in> set (generate_pseudo b col)" and dp: "double_push b mv"
  shows "fst (passed_over col mv) = (if col = White then 5 else 2)
       \<and> 0 \<le> snd (passed_over col mv) \<and> snd (passed_over col mv) < 8"
proof -
  from gen obtain r c where rc: "in_bounds r c" and mem: "mv \<in> set (piece_moves b col r c)"
    by (rule generate_pseudo_from)
  have rows: "fst (to mv) \<noteq> fst (fr mv)"
    using dp by (auto simp: double_push_def forward_def split: cell.splits if_splits)
  then have frmv: "fr mv = (r, c)" using piece_moves_fr[OF mem] by auto
  from mem obtain q where occ: "cell_at b r c = Piece col q" by (rule piece_moves_occupied)
  have "r = start_rank col" using dp frmv occ by (simp add: double_push_def)
  then show ?thesis using rc frmv
    by (auto simp: passed_over_def start_rank_def forward_def in_bounds_def)
qed

lemma wf_board_make_move:
  assumes wf: "wf_board b" and gen: "mv \<in> set (generate_pseudo b col)"
    and ok: "make_move b mv = (None, b')"
  shows "wf_board b'"
proof -
  have wfg: "wf_grid (board b)" using wf by (simp add: wf_board_def)
  have wfg': "wf_grid (board b')" using make_move_wf[OF wfg, of mv] ok by simp
  have ep: "en_passant b' = (if double_push b mv then Some (passed_over col mv) else None)"
    using wfg gen ok by (rule generated_en_passant)
  show ?thesis
  proof (cases "double_push b mv")
    case True
    from double_push_target[OF gen True] ep True wfg' show ?thesis
      by (cases "passed_over col mv") (auto simp: wf_board_def split: if_splits)
  next
    case False
    then show ?thesis using ep wfg' by (simp add: wf_board_def)
  qed
qed

lemma wf_board_new: "wf_board new_board"
  by code_simp

lemma reachable_wf_board: "reachable b \<Longrightarrow> wf_board b"
proof (induction rule: reachable.induct)
  case start
  show ?case by (rule wf_board_new)
next
  case (step b mv b')
  from step.hyps(2) obtain ms where lm: "legal_moves b (turn b) = Inr ms" and mem: "mv \<in> set ms"
    and ok: "make_move b mv = (None, b')"
    by (auto simp: play_def split: sum.splits if_splits prod.splits option.splits)
  from step.IH legal_moves_generated[OF lm mem] ok show ?case
    by (rule wf_board_make_move)
qed

lemma in_check_defined:
  assumes "in_bounds r c" and "cell_at b r c = Piece col King"
  shows "\<exists>v. in_check b col = Inr v"
proof -
  have "(r, c) \<in> set squares" using assms(1) by (simp add: set_squares)
  moreover have "cell_at b r c \<noteq> Empty \<and> cell_at b r c = Piece col King"
    using assms(2) by simp
  ultimately have "king_pos b col \<noteq> None"
    unfolding king_pos_def find_None_iff by blast
  then show ?thesis by (auto simp: in_check_def split: option.splits)
qed

section \<open>Promotion\<close>

text \<open>Steps of \<^verbatim>\<open>make_move\<close> on squares of the board do not raise, and the cell written
  last at the destination of a pawn move onto row 0 or row 7 is the promoted piece: the
  rook relocation of a castling move writes other squares.\<close>

lemma run_append_ok:
  "run (xs @ ys) b = (None, b') \<Longrightarrow> \<exists>b1. run xs b = (None, b1) \<and> run ys b1 = (None, b')"
  by (cases "run xs b") (auto simp: run_append split: option.splits)

lemma run_ok_keeps:
  assumes "run ss b = (None, b')" and "list_all (keeps R) ss"
    and "\<And>x. R x x" and "\<And>x y z. R x y \<Longrightarrow> R y z \<Longrightarrow> R x z"
  shows "R b b'"
  using run_keeps[of R ss b, OF assms(2,3,4)] assms(1) by simp

lemma move_steps_keep_wf: "list_all (keeps keeps_wf) ss \<Longrightarrow> run ss b = (None, b') \<Longrightarrow> wf_grid (board b) \<Longrightarrow> wf_grid (board b')"
  using run_ok_keeps[of ss b b' keeps_wf] by (auto simp: keeps_wf_def)

lemma keeps_cell_set:
  assumes "in_bounds (fst rc) (snd rc)" and "in_bounds (fst t) (snd t)" and "rc \<noteq> t"
  shows "keeps (keeps_cell t) (set_cell rc v)"
  using assms
  by (auto simp: keeps_def keeps_cell_def set_cell_write write_cell_wf cell_at_write)

lemma keeps_cell_copy:
  assumes "in_bounds (fst rc) (snd rc)" and "in_bounds (fst t) (snd t)" and "rc \<noteq> t"
  shows "keeps (keeps_cell t) (copy_cell rc sc)"
proof -
  have "keeps_cell t x y" if "copy_cell rc sc x = Inr y" for x y
  proof -
    from that obtain v where "set_cell rc v x = Inr y"
      by (auto simp: copy_cell_def split: sum.splits)
    then show ?thesis using keeps_cell_set[OF assms, of v] by (simp add: keeps_def)
  qed
  then show ?thesis by (simp add: keeps_def)
qed

lemma castle_rook_keeps_cell:
  assumes "in_bounds (fst t) (snd t)"
  shows "list_all (keeps (keeps_cell t)) (castle_rook t)"
  using assms
  by (auto simp: castle_rook_def in_bounds_def intro!: keeps_cell_set keeps_cell_copy)

lemma keeps_cell_flags:
  "keeps (keeps_cell t) (set_en_passant e)" "keeps (keeps_cell t) flip_turn"
  by (auto simp: keeps_def keeps_cell_def set_en_passant_def flip_turn_def cell_at_def)

lemma promotion_written:
  assumes wf: "wf_grid (board b)"
    and dst: "in_bounds (fst (to mv)) (snd (to mv))"
    and far: "fst (to mv) = 0 \<or> fst (to mv) = 7"
    and ok: "run (move_steps mv col Pawn dest) b = (None, b')"
  shows "cell_at b' (fst (to mv)) (snd (to mv))
           = Piece col (case promotion mv of None \<Rightarrow> Queen | Some k \<Rightarrow> k)"
proof -
  define v where "v = Piece col (case promotion mv of None \<Rightarrow> Queen | Some k \<Rightarrow> k)"
  define pre where "pre = [set_en_passant None] @ rights_steps mv col Pawn dest
      @ when_do (is_en_passant mv)
          [set_cell (fst (to mv) + (if col = White then 1 else -1), snd (to mv)) Empty]
      @ [set_cell (fr mv) Empty, set_cell (to mv) (Piece col Pawn)]"
  define post where "post = when_do (is_castle mv) (castle_rook (to mv))
      @ when_do (\<bar>fst (to mv) - fst (fr mv)\<bar> = 2)
          [set_en_passant (Some ((fst (to mv) + fst (fr mv)) div 2, snd (fr mv)))]
      @ [flip_turn]"
  have steps: "move_steps mv col Pawn dest = pre @ [set_cell (to mv) v] @ post"
    using far by (simp add: move_steps_def grid_steps_def pre_def post_def v_def when_do_def)
  from ok obtain x y where rx: "run pre b = (None, x)" and ry: "run [set_cell (to mv) v] x = (None, y)"
    and rz: "run post y = (None, b')"
    unfolding steps by (metis run_append_ok)
  have "list_all (keeps keeps_wf) pre"
    by (simp add: pre_def keeps_wf_steps rights_steps_all list_all_when_do)
  then have wfx: "wf_grid (board x)" using rx wf by (rule move_steps_keep_wf)
  have y: "y = write_cell (to mv) v x" using ry wfx dst by (simp add: set_cell_write)
  have wfy: "wf_grid (board y)" and cy: "cell_at y (fst (to mv)) (snd (to mv)) = v"
    using wfx dst by (simp_all add: y write_cell_wf cell_at_write)
  have "list_all (keeps (keeps_cell (to mv))) post"
    using dst by (simp add: post_def list_all_when_do castle_rook_keeps_cell keeps_cell_flags)
  then have "keeps_cell (to mv) y b'"
    using run_ok_keeps[OF rz, of "keeps_cell (to mv)"] by (auto simp: keeps_cell_def)
  then show ?thesis using wfy cy by (simp add: keeps_cell_def v_def)
qed

lemma run_safe:
  assumes "list_all safe ss" and "wf_grid (board b)"
  shows "\<exists>y. run ss b = (None, y) \<and> wf_grid (board y)"
  using assms
proof (induction ss arbitrary: b)
  case Nil
  then show ?case by simp
next
  case (Cons s ss)
  from Cons.prems obtain b1 where s: "s b = Inr b1" and wf1: "wf_grid (board b1)"
    by (auto simp: safe_def)
  from Cons.IH[OF _ wf1] Cons.prems(1) obtain y where "run ss b1 = (None, y)" "wf_grid (board y)"
    by auto
  with s show ?case by simp
qed

lemma safe_flags:
  "safe drop_wK" "safe drop_wQ" "safe drop_bK" "safe drop_bQ" "safe (set_en_passant e)"
  "safe flip_turn"
  by (auto simp: safe_def drop_wK_def drop_wQ_def drop_bK_def drop_bQ_def set_en_passant_def
      flip_turn_def)

lemma safe_set_cell: "in_bounds (fst rc) (snd rc) \<Longrightarrow> safe (set_cell rc v)"
  by (simp add: safe_def set_cell_write write_cell_wf)

lemma safe_copy_cell:
  "in_bounds (fst d) (snd d) \<Longrightarrow> in_bounds (fst sc) (snd sc) \<Longrightarrow> safe (copy_cell d sc)"
  by (simp add: safe_def copy_cell_def getitem_wf set_cell_write write_cell_wf)

lemma castle_rook_safe: "list_all safe (castle_rook t)"
  by (simp add: castle_rook_def safe_set_cell safe_copy_cell in_bounds_def)

lemma move_steps_safe:
  assumes "in_bounds (fst (fr mv)) (snd (fr mv))" and "in_bounds (fst (to mv)) (snd (to mv))"
    and "is_en_passant mv \<longrightarrow>
           in_bounds (fst (to mv) + (if col = White then 1 else -1)) (snd (to mv))"
  shows "list_all safe (move_steps mv col p dest)"
  using assms
  by (simp add: move_steps_def grid_steps_def list_all_when_do rights_steps_all safe_flags
      safe_set_cell castle_rook_safe)

lemma distinct_squares: "distinct squares"
  by code_simp

lemma filter_concat_single:
  assumes "distinct xs" and "x \<in> set xs"
    and "\<And>y. y \<in> set xs \<Longrightarrow> y \<noteq> x \<Longrightarrow> filter Q (f y) = []"
  shows "filter Q (concat (map f xs)) = filter Q (f x)"
  using assms
proof (induction xs)
  case Nil
  then show ?case by simp
next
  case (Cons a xs)
  show ?case
  proof (cases "a = x")
    case True
    then have "x \<notin> set xs" using Cons.prems(1) by simp
    then have "filter Q (concat (map f xs)) = []"
      using Cons.prems(3) by (auto simp: filter_empty_conv)
    then show ?thesis using True by simp
  next
    case False
    then have "filter Q (f a) = []" using Cons.prems(3) by simp
    moreover have "filter Q (concat (map f xs)) = filter Q (f x)"
      using Cons.IH Cons.prems False by auto
    ultimately show ?thesis by simp
  qed
qed

lemma pawn_moves_far:
  assumes "r + forward col = far_rank col"
    and "\<And>er ec. en_passant b = Some (er, ec) \<Longrightarrow> er \<noteq> far_rank col"
  shows "pawn_moves b col r c =
     (if in_bounds (far_rank col) c \<and> cell_at b (far_rank col) c = Empty
      then promo_moves (r, c) (far_rank col, c) else [])
     @ (if in_bounds (far_rank col) (c - 1) \<and> cell_at b (far_rank col) (c - 1) \<noteq> Empty
           \<and> color_at b (far_rank col) (c - 1) \<noteq> Some col
        then promo_moves (r, c) (far_rank col, c - 1) else [])
     @ (if in_bounds (far_rank col) (c + 1) \<and> cell_at b (far_rank col) (c + 1) \<noteq> Empty
           \<and> color_at b (far_rank col) (c + 1) \<noteq> Some col
        then promo_moves (r, c) (far_rank col, c + 1) else [])"
proof (cases col)
  case White
  then have r: "r = 1" using assms(1) by (simp add: forward_def far_rank_def)
  show ?thesis using assms(2) White
    by (auto simp: pawn_moves_def Let_def r far_rank_def split: option.splits)
next
  case Black
  then have r: "r = 6" using assms(1) by (simp add: forward_def far_rank_def)
  show ?thesis using assms(2) Black
    by (auto simp: pawn_moves_def Let_def r far_rank_def split: option.splits)
qed

lemma filter_promo_moves:
  "filter (\<lambda>m. fr m = f' \<and> to m = t') (promo_moves f t)
     = (if f = f' \<and> t = t' then promo_moves f t else [])"
  by (simp add: promo_moves_def promo_kinds_def mk_move_def)

lemma promo_moves_to: "m \<in> set (promo_moves f t) \<Longrightarrow> to m = t"
  by (auto simp: promo_moves_def mk_move_def)

lemma wf_board_ep: "wf_board b \<Longrightarrow> en_passant b = Some (er, ec) \<Longrightarrow> er \<noteq> far_rank col"
  by (auto simp: wf_board_def far_rank_def)

lemma promotion_moves_generated:
  assumes wf: "wf_board b"
    and gen: "mv \<in> set (generate_pseudo b col)"
    and pawn: "cell_at b (fst (fr mv)) (snd (fr mv)) = Piece col Pawn"
    and far: "fst (to mv) = far_rank col"
  shows "filter (\<lambda>m. fr m = fr mv \<and> to m = to mv) (generate_pseudo b col)
           = promo_moves (fr mv) (to mv)"
proof -
  from gen obtain r c where rc: "in_bounds r c" and mem: "mv \<in> set (piece_moves b col r c)"
    by (rule generate_pseudo_from)
  have hf: "home_rank col \<noteq> far_rank col" by (simp add: home_rank_def far_rank_def)
  have frmv: "fr mv = (r, c)" using piece_moves_fr[OF mem] far hf by auto
  have pm: "piece_moves b col r c = pawn_moves b col r c"
    using pawn frmv by (simp add: piece_moves_def color_at_def piece_def)
  have row: "r + forward col = far_rank col"
    using pawn_moves_rows[of mv b col r c] mem pm far rc
    by (auto simp: far_rank_def forward_def start_rank_def in_bounds_def split: if_splits)
  have shape: "pawn_moves b col r c =
     (if in_bounds (far_rank col) c \<and> cell_at b (far_rank col) c = Empty
      then promo_moves (r, c) (far_rank col, c) else [])
     @ (if in_bounds (far_rank col) (c - 1) \<and> cell_at b (far_rank col) (c - 1) \<noteq> Empty
           \<and> color_at b (far_rank col) (c - 1) \<noteq> Some col
        then promo_moves (r, c) (far_rank col, c - 1) else [])
     @ (if in_bounds (far_rank col) (c + 1) \<and> cell_at b (far_rank col) (c + 1) \<noteq> Empty
           \<and> color_at b (far_rank col) (c + 1) \<noteq> Some col
        then promo_moves (r, c) (far_rank col, c + 1) else [])"
    using row wf_board_ep[OF wf] by (rule pawn_moves_far)
  let ?Q = "\<lambda>m. fr m = fr mv \<and> to m = to mv"
  have others: "filter ?Q (case y of (r', c') \<Rightarrow> piece_moves b col r' c') = []"
    if "y \<in> set squares" "y \<noteq> (r, c)" for y
  proof -
    obtain r' c' where y: "y = (r', c')" by (cases y)
    have "\<not> ?Q m" if "m \<in> set (piece_moves b col r' c')" for m
      using piece_moves_fr[OF that] \<open>y \<noteq> (r, c)\<close> y frmv far hf by auto
    then show ?thesis by (simp add: y filter_empty_conv)
  qed
  have "filter ?Q (generate_pseudo b col) = filter ?Q (case (r, c) of (r', c') \<Rightarrow> piece_moves b col r' c')"
    unfolding generate_pseudo_def
    by (rule filter_concat_single[OF distinct_squares]) (use rc others in \<open>auto simp: set_squares\<close>)
  also have "\<dots> = filter ?Q (pawn_moves b col r c)" by (simp add: pm)
  also have "\<dots> = promo_moves (fr mv) (to mv)"
  proof -
    define A where "A \<longleftrightarrow> in_bounds (far_rank col) c \<and> cell_at b (far_rank col) c = Empty"
    define B where "B \<longleftrightarrow> in_bounds (far_rank col) (c - 1) \<and> cell_at b (far_rank col) (c - 1) \<noteq> Empty
           \<and> color_at b (far_rank col) (c - 1) \<noteq> Some col"
    define C where "C \<longleftrightarrow> in_bounds (far_rank col) (c + 1) \<and> cell_at b (far_rank col) (c + 1) \<noteq> Empty
           \<and> color_at b (far_rank col) (c + 1) \<noteq> Some col"
    have shape': "pawn_moves b col r c =
        (if A then promo_moves (r, c) (far_rank col, c) else [])
        @ (if B then promo_moves (r, c) (far_rank col, c - 1) else [])
        @ (if C then promo_moves (r, c) (far_rank col, c + 1) else [])"
      unfolding A_def B_def C_def by (rule shape)
    have "mv \<in> set (pawn_moves b col r c)" using mem pm by simp
    then have cases: "(A \<and> to mv = (far_rank col, c)) \<or> (B \<and> to mv = (far_rank col, c - 1))
        \<or> (C \<and> to mv = (far_rank col, c + 1))"
      unfolding shape' by (auto dest: promo_moves_to split: if_splits)
    have filt: "filter ?Q (if X then promo_moves (r, c) t else [])
        = (if X \<and> t = to mv then promo_moves (r, c) t else [])" for X t
      by (simp add: frmv filter_promo_moves)
    have "filter ?Q (pawn_moves b col r c) =
        (if A \<and> (far_rank col, c) = to mv then promo_moves (r, c) (far_rank col, c) else [])
        @ (if B \<and> (far_rank col, c - 1) = to mv then promo_moves (r, c) (far_rank col, c - 1) else [])
        @ (if C \<and> (far_rank col, c + 1) = to mv then promo_moves (r, c) (far_rank col, c + 1) else [])"
      unfolding shape' filter_append filt ..
    also have "\<dots> = promo_moves (r, c) (to mv)"
    proof -
      obtain tc where t: "to mv = (far_rank col, tc)" using far by (cases "to mv") auto
      show ?thesis using cases unfolding t by auto
    qed
    finally show ?thesis by (simp add: frmv)
  qed
  finally show ?thesis .
qed

lemma promotion_applied:
  assumes wf: "wf_grid (board b)"
    and src: "in_bounds (fst (fr mv)) (snd (fr mv))"
    and dst: "in_bounds (fst (to mv)) (snd (to mv))"
    and occ: "cell_at b (fst (fr mv)) (snd (fr mv)) = Piece col Pawn"
    and far: "fst (to mv) = far_rank col"
  shows "fst (make_move b mv) = None
     \<and> cell_at (snd (make_move b mv)) (fst (to mv)) (snd (to mv))
         = Piece col (case promotion mv of None \<Rightarrow> Queen | Some k \<Rightarrow> k)"
proof -
  define dest where "dest = cell_at b (fst (to mv)) (snd (to mv))"
  have g1: "getitem (board b) (fst (fr mv)) (snd (fr mv)) = Inr (Piece col Pawn)"
    using wf src occ by (simp add: getitem_wf cell_at_def)
  have g2: "getitem (board b) (fst (to mv)) (snd (to mv)) = Inr dest"
    using wf dst by (simp add: getitem_wf cell_at_def dest_def)
  have mm: "make_move b mv = run (move_steps mv col Pawn dest) b"
    by (simp add: make_move_def g1 g2)
  have cap: "in_bounds (fst (to mv) + (if col = White then 1 else -1)) (snd (to mv))"
    using dst far by (auto simp: in_bounds_def far_rank_def)
  have "list_all safe (move_steps mv col Pawn dest)"
    using src dst cap by (simp add: move_steps_safe)
  then obtain b' where ok: "run (move_steps mv col Pawn dest) b = (None, b')"
    using run_safe wf by blast
  have edge: "fst (to mv) = 0 \<or> fst (to mv) = 7" using far by (simp add: far_rank_def)
  from promotion_written[OF wf dst edge ok] mm ok show ?thesis by simp
qed

text \<open>C7: on a board with an 8 by 8 grid whose en-passant target, if any, is on the third
  or sixth rank (every board of a game is one, lemma \<open>reachable_wf_board\<close>): for every
  move of \<^verbatim>\<open>generate_pseudo\<close> whose source holds a pawn of the colour and whose destination
  is on the farthest rank, the generated moves with that source and destination are
  exactly four, the same move with promotion queen, rook, bishop and knight, and they are
  distinct; and \<^verbatim>\<open>make_move\<close> applied to any move that takes a pawn from a square of the
  board to a square of the farthest rank returns and leaves on the destination a piece
  of the pawn's colour, a queen when the promotion of the move is unset and the kind it
  names otherwise.\<close>

theorem promotion_complete:
  assumes wf: "wf_board b"
  shows "(\<forall>mv \<in> set (generate_pseudo b col).
            cell_at b (fst (fr mv)) (snd (fr mv)) = Piece col Pawn \<and> fst (to mv) = far_rank col \<longrightarrow>
              filter (\<lambda>m. fr m = fr mv \<and> to m = to mv) (generate_pseudo b col)
                = map (\<lambda>k. \<lparr>fr = fr mv, to = to mv, promotion = Some k,
                               is_castle = False, is_en_passant = False\<rparr>)
                    [Queen, Rook, Bishop, Knight]
              \<and> distinct (filter (\<lambda>m. fr m = fr mv \<and> to m = to mv) (generate_pseudo b col)))
       \<and> (\<forall>mv. in_bounds (fst (fr mv)) (snd (fr mv)) \<and> in_bounds (fst (to mv)) (snd (to mv))
              \<and> cell_at b (fst (fr mv)) (snd (fr mv)) = Piece col Pawn \<and> fst (to mv) = far_rank col \<longrightarrow>
              fst (make_move b mv) = None
              \<and> cell_at (snd (make_move b mv)) (fst (to mv)) (snd (to mv))
                  = Piece col (case promotion mv of None \<Rightarrow> Queen | Some k \<Rightarrow> k))"
proof -
  have four: "promo_moves f t = map (\<lambda>k. \<lparr>fr = f, to = t, promotion = Some k,
                               is_castle = False, is_en_passant = False\<rparr>)
                    [Queen, Rook, Bishop, Knight]" for f t
    by (simp add: promo_moves_def promo_kinds_def mk_move_def)
  have dist: "distinct (promo_moves f t)" for f t
    by (simp add: promo_moves_def promo_kinds_def mk_move_def)
  have wfg: "wf_grid (board b)" using wf by (simp add: wf_board_def)
  have A: "filter (\<lambda>m. fr m = fr mv \<and> to m = to mv) (generate_pseudo b col) = promo_moves (fr mv) (to mv)"
    if "mv \<in> set (generate_pseudo b col)" "cell_at b (fst (fr mv)) (snd (fr mv)) = Piece col Pawn"
      "fst (to mv) = far_rank col" for mv
    using wf that by (rule promotion_moves_generated)
  show ?thesis
  proof (intro conjI ballI allI impI)
    fix mv :: Move assume "mv \<in> set (generate_pseudo b col)"
      and "cell_at b (fst (fr mv)) (snd (fr mv)) = Piece col Pawn \<and> fst (to mv) = far_rank col"
    then have eq: "filter (\<lambda>m. fr m = fr mv \<and> to m = to mv) (generate_pseudo b col)
        = promo_moves (fr mv) (to mv)" by (simp add: A)
    show "filter (\<lambda>m. fr m = fr mv \<and> to m = to mv) (generate_pseudo b col)
        = map (\<lambda>k. \<lparr>fr = fr mv, to = to mv, promotion = Some k,
                               is_castle = False, is_en_passant = False\<rparr>)
                    [Queen, Rook, Bishop, Knight]"
      unfolding eq by (rule four)
    show "distinct (filter (\<lambda>m. fr m = fr mv \<and> to m = to mv) (generate_pseudo b col))"
      unfolding eq by (rule dist)
  next
    fix mv :: Move assume h: "in_bounds (fst (fr mv)) (snd (fr mv)) \<and> in_bounds (fst (to mv)) (snd (to mv))
              \<and> cell_at b (fst (fr mv)) (snd (fr mv)) = Piece col Pawn \<and> fst (to mv) = far_rank col"
    then have p: "fst (make_move b mv) = None
     \<and> cell_at (snd (make_move b mv)) (fst (to mv)) (snd (to mv))
         = Piece col (case promotion mv of None \<Rightarrow> Queen | Some k \<Rightarrow> k)"
      using promotion_applied[OF wfg, of mv col] by blast
    from p show "fst (make_move b mv) = None" by simp
    from p show "cell_at (snd (make_move b mv)) (fst (to mv)) (snd (to mv))
         = Piece col (case promotion mv of None \<Rightarrow> Queen | Some k \<Rightarrow> k)" by simp
  qed
qed

theorem promotion_complete_witness:
  "(let b = the (play_all new_board promo_line);
        m = (mk_move (1, 1) (0, 0))\<lparr>promotion := Some Rook\<rparr>
    in play_all new_board promo_line \<noteq> None \<and> wf_board b
       \<and> m \<in> set (generate_pseudo b White) \<and> cell_at b 1 1 = Piece White Pawn
       \<and> filter (\<lambda>x. fr x = (1, 1) \<and> to x = (0, 0)) (generate_pseudo b White)
           = map (\<lambda>k. \<lparr>fr = (1, 1), to = (0, 0), promotion = Some k,
                         is_castle = False, is_en_passant = False\<rparr>)
               [Queen, Rook, Bishop, Knight]
       \<and> fst (make_move b (mk_move (1, 1) (0, 0))) = None
       \<and> cell_at (snd (make_move b (mk_move (1, 1) (0, 0)))) 0 0 = Piece White Queen
       \<and> fst (make_move b m) = None
       \<and> cell_at (snd (make_move b m)) 0 0 = Piece White Rook)"
proof -
  define b where "b = the (play_all new_board promo_line)"
  define m where "m = (mk_move (1, 1) (0, 0))\<lparr>promotion := Some Rook\<rparr>"
  define q where "q = mk_move (1, 1) (0, 0)"
  have facts: "play_all new_board promo_line \<noteq> None \<and> wf_board b
      \<and> m \<in> set (generate_pseudo b White) \<and> cell_at b 1 1 = Piece White Pawn"
    unfolding b_def m_def by code_simp
  have m: "fr m = (1, 1)" "to m = (0, 0)" "promotion m = Some Rook"
    and q: "fr q = (1, 1)" "to q = (0, 0)" "promotion q = None"
    by (simp_all add: m_def q_def mk_move_def)
  have ib: "in_bounds 1 1" "in_bounds 0 0" by (simp_all add: in_bounds_def)
  have far: "far_rank White = 0" by (simp add: far_rank_def)
  have wf: "wf_board b" using facts by simp
  note inst = promotion_complete[OF wf, of White]
  have gen: "filter (\<lambda>x. fr x = (1, 1) \<and> to x = (0, 0)) (generate_pseudo b White)
           = map (\<lambda>k. \<lparr>fr = (1, 1), to = (0, 0), promotion = Some k,
                         is_castle = False, is_en_passant = False\<rparr>)
               [Queen, Rook, Bishop, Knight]"
  proof -
    from inst facts
    have "cell_at b (fst (fr m)) (snd (fr m)) = Piece White Pawn \<and> fst (to m) = far_rank White \<longrightarrow>
        filter (\<lambda>x. fr x = fr m \<and> to x = to m) (generate_pseudo b White)
          = map (\<lambda>k. \<lparr>fr = fr m, to = to m, promotion = Some k,
                         is_castle = False, is_en_passant = False\<rparr>)
               [Queen, Rook, Bishop, Knight]"
      by blast
    then show ?thesis using facts far by (simp add: m)
  qed
  have app: "fst (make_move b x) = None
      \<and> cell_at (snd (make_move b x)) 0 0 = Piece White (case promotion x of None \<Rightarrow> Queen | Some k \<Rightarrow> k)"
    if "fr x = (1, 1)" "to x = (0, 0)" for x
  proof -
    from inst
    have "in_bounds (fst (fr x)) (snd (fr x)) \<and> in_bounds (fst (to x)) (snd (to x))
        \<and> cell_at b (fst (fr x)) (snd (fr x)) = Piece White Pawn \<and> fst (to x) = far_rank White \<longrightarrow>
        fst (make_move b x) = None
        \<and> cell_at (snd (make_move b x)) (fst (to x)) (snd (to x))
            = Piece White (case promotion x of None \<Rightarrow> Queen | Some k \<Rightarrow> k)"
      by blast
    then show ?thesis using that ib far facts by simp
  qed
  from app[OF m(1,2)] app[OF q(1,2)] gen facts m(3) q(3)
  show ?thesis by (simp add: Let_def b_def[symmetric] m_def q_def)
qed

section \<open>Generated moves are applied\<close>

text \<open>On a board with an 8 by 8 grid and an en-passant target on the third or sixth rank,
  \<^verbatim>\<open>make_move\<close> returns for every move of \<^verbatim>\<open>generate_pseudo\<close>: the squares it reads and
  writes are on the board and the source is occupied. For a castling move, whose source
  is the literal king square, the source is occupied when the king of the colour stands
  there.\<close>

lemma pawn_moves_en_passant:
  assumes "m \<in> set (pawn_moves b col r c)" and "is_en_passant m"
  shows "en_passant b = Some (to m) \<and> fst (to m) = r + forward col"
  using assms
  by (auto simp: pawn_moves_def Let_def promo_moves_def mk_move_def forward_def
      split: if_splits option.splits)

lemma piece_moves_flags:
  assumes "m \<in> set (piece_moves b col r c)"
  shows "\<not> (is_castle m \<and> is_en_passant m)
       \<and> (is_en_passant m \<longrightarrow> m \<in> set (pawn_moves b col r c))
       \<and> (is_castle m \<longrightarrow> to m = (home_rank col, 6) \<or> to m = (home_rank col, 2))"
proof -
  have p: "\<not> is_castle x" if "x \<in> set (pawn_moves b col r c)" for x
    using that
    by (auto simp: pawn_moves_def Let_def promo_moves_def mk_move_def
        split: if_splits option.splits)
  have n: "\<not> is_castle x \<and> \<not> is_en_passant x" if "x \<in> set (knight_moves b col r c)" for x
    using that by (auto simp: knight_moves_def mk_move_def split: if_splits)
  have k: "\<not> is_castle x \<and> \<not> is_en_passant x" if "x \<in> set (king_steps b col r c)" for x
    using that by (auto simp: king_steps_def mk_move_def split: if_splits)
  have sl: "\<not> is_castle x \<and> \<not> is_en_passant x"
    if "x \<in> set (slide b col src rr cc dr dc)" for x src rr cc dr dc
    using that
  proof (induction b col src rr cc dr dc rule: slide.induct)
    case (1 b col src rr cc dr dc)
    from "1.prems" show ?case
      by (subst (asm) slide.simps) (auto simp: mk_move_def "1.IH" split: if_splits)
  qed
  have s: "\<not> is_castle x \<and> \<not> is_en_passant x" if "x \<in> set (slider_moves b col q r c)" for x q
    using that by (auto simp: slider_moves_def dest: sl)
  have c: "\<not> is_en_passant x \<and> (to x = (home_rank col, 6) \<or> to x = (home_rank col, 2))"
    if "x \<in> set (castle_moves b col)" for x
    using that
    by (auto simp: castle_moves_def castle_def mk_move_def home_rank_def
        split: sum.splits bool.splits if_splits)
  show ?thesis using assms
    by (auto simp: piece_moves_def split: if_splits cell.splits dest: p n k s c)
qed

lemma generated_move_returns:
  assumes wf: "wf_board b" and gen: "mv \<in> set (generate_pseudo b col)"
    and king: "is_castle mv \<longrightarrow> cell_at b (home_rank col) 4 \<noteq> Empty"
  shows "fst (make_move b mv) = None"
proof -
  from gen obtain r c where rc: "in_bounds r c" and mem: "mv \<in> set (piece_moves b col r c)"
    by (rule generate_pseudo_from)
  have wfg: "wf_grid (board b)" using wf by (simp add: wf_board_def)
  note fl = piece_moves_flags[OF mem]
  have src: "in_bounds (fst (fr mv)) (snd (fr mv))"
    using piece_moves_fr[OF mem] rc by (auto simp: in_bounds_def home_rank_def)
  have dst: "in_bounds (fst (to mv)) (snd (to mv))"
    and cap: "is_en_passant mv \<longrightarrow>
           in_bounds (fst (to mv) + (if x = White then 1 else -1)) (snd (to mv))" for x
  proof -
    consider (castle) "is_castle mv" | (ep) "is_en_passant mv" "\<not> is_castle mv"
      | (plain) "\<not> is_castle mv" "\<not> is_en_passant mv" by blast
    then have "in_bounds (fst (to mv)) (snd (to mv))
        \<and> (is_en_passant mv \<longrightarrow>
           in_bounds (fst (to mv) + (if x = White then 1 else -1)) (snd (to mv)))"
    proof cases
      case castle
      then show ?thesis using fl by (auto simp: in_bounds_def home_rank_def)
    next
      case ep
      then have "mv \<in> set (pawn_moves b col r c)" using fl by simp
      from pawn_moves_en_passant[OF this ep(1)] wf show ?thesis
        by (cases "to mv") (auto simp: wf_board_def in_bounds_def)
    next
      case plain
      then show ?thesis using piece_moves_to[OF mem] by simp
    qed
    then show "in_bounds (fst (to mv)) (snd (to mv))"
      and "is_en_passant mv \<longrightarrow>
           in_bounds (fst (to mv) + (if x = White then 1 else -1)) (snd (to mv))" by simp_all
  qed
  have occ: "cell_at b (fst (fr mv)) (snd (fr mv)) \<noteq> Empty"
  proof -
    from mem obtain q where q: "cell_at b r c = Piece col q" by (rule piece_moves_occupied)
    from piece_moves_fr[OF mem] show ?thesis
    proof
      assume "fr mv = (r, c)"
      then show ?thesis using q by simp
    next
      assume "is_castle mv \<and> fr mv = (home_rank col, 4) \<and> fst (to mv) = home_rank col"
      then show ?thesis using king by simp
    qed
  qed
  obtain x p where pc: "cell_at b (fst (fr mv)) (snd (fr mv)) = Piece x p"
    using occ by (cases "cell_at b (fst (fr mv)) (snd (fr mv))") auto
  define dest where "dest = cell_at b (fst (to mv)) (snd (to mv))"
  have g1: "getitem (board b) (fst (fr mv)) (snd (fr mv)) = Inr (Piece x p)"
    using wfg src pc by (simp add: getitem_wf cell_at_def)
  have g2: "getitem (board b) (fst (to mv)) (snd (to mv)) = Inr dest"
    using wfg dst by (simp add: getitem_wf cell_at_def dest_def)
  have mm: "make_move b mv = run (move_steps mv x p dest) b"
    by (simp add: make_move_def g1 g2)
  have "list_all safe (move_steps mv x p dest)"
    using src dst cap[of x] by (rule move_steps_safe)
  then obtain b' where "run (move_steps mv x p dest) b = (None, b')"
    using run_safe wfg by blast
  then show ?thesis using mm by simp
qed

section \<open>Allocation and clone\<close>

text \<open>Allocation leaves every reference handed out before as it is; the clone of an
  allocated object refers only to lists and a dictionary allocated by \<^verbatim>\<open>clone\<close> itself,
  its rows are different lists, and it stands for the same board as the original.\<close>

lemma same_below_iff:
  "same_below n s s' \<longleftrightarrow>
     (\<forall>x<n. objs s' x = objs s x \<and> outers s' x = outers s x \<and> rows s' x = rows s x
            \<and> dicts s' x = dicts s x)"
  by (auto simp: same_below_def list_all_iff)

lemma keeps_old_refl: "keeps_old n s s"
  by (simp add: keeps_old_def same_below_iff)

lemma keeps_old_trans: "keeps_old n s s1 \<Longrightarrow> keeps_old n s1 s2 \<Longrightarrow> keeps_old n s s2"
  by (auto simp: keeps_old_def same_below_iff)

lemma upt_head: "[n ..< n + Suc k] = n # [Suc n ..< Suc (n + k)]"
  by (simp add: upt_conv_Cons del: upt_Suc)

lemma new_rows_props:
  assumes "new_rows vs s = (as, s')"
  shows "as = [fresh s ..< fresh s + length vs] \<and> fresh s' = fresh s + length vs
     \<and> objs s' = objs s \<and> outers s' = outers s \<and> dicts s' = dicts s
     \<and> (\<forall>x<fresh s. rows s' x = rows s x) \<and> map (rows s') as = vs"
  using assms
proof (induction vs arbitrary: s as s')
  case Nil
  then show ?case by simp
next
  case (Cons v vs)
  define s1 where "s1 = s\<lparr>rows := (rows s)(fresh s := v), fresh := fresh s + 1\<rparr>"
  obtain as1 s2 where r: "new_rows vs s1 = (as1, s2)" by fastforce
  from Cons.prems r have as: "as = fresh s # as1" and s': "s' = s2"
    by (simp_all add: new_row_def s1_def)
  note ih = Cons.IH[OF r]
  have f1: "fresh s1 = fresh s + 1" "objs s1 = objs s" "outers s1 = outers s" "dicts s1 = dicts s"
    "rows s1 = (rows s)(fresh s := v)"
    by (simp_all add: s1_def)
  have i1: "as1 = [fresh s1 ..< fresh s1 + length vs]" using ih by blast
  have i2: "fresh s2 = fresh s1 + length vs" using ih by blast
  have i3: "objs s2 = objs s1" "outers s2 = outers s1" "dicts s2 = dicts s1" using ih by blast+
  have i4: "rows s2 x = rows s1 x" if "x < fresh s1" for x using ih that by blast
  have i5: "map (rows s2) as1 = vs" using ih by blast
  have "rows s2 (fresh s) = v" using i4[of "fresh s"] f1 by simp
  moreover have "[fresh s ..< fresh s + length (v # vs)] = fresh s # as1"
    unfolding i1 f1 using upt_head[of "fresh s" "length vs"] by (simp del: upt_Suc)
  moreover have "\<forall>x<fresh s. rows s2 x = rows s x" using i4 f1 by simp
  ultimately show ?case using i2 i3 i5 f1 as s' by simp
qed

lemma keeps_old_mono: "n \<le> m \<Longrightarrow> keeps_old m s s' \<Longrightarrow> keeps_old n s s'"
  by (auto simp: keeps_old_def same_below_iff)

lemma load_keeps_old:
  assumes "allocated a s" and "keeps_old (fresh s) s s'"
  shows "load s' a = load s a" and "allocated a s'"
proof -
  have old: "objs s' x = objs s x" "outers s' x = outers s x" "rows s' x = rows s x"
    "dicts s' x = dicts s x" if "x < fresh s" for x
    using assms(2) that by (auto simp: keeps_old_def same_below_iff)
  have le: "fresh s \<le> fresh s'" using assms(2) by (simp add: keeps_old_def)
  have a: "a < fresh s" "board_ref (objs s a) < fresh s" "castling_ref (objs s a) < fresh s"
    and rs: "\<forall>r \<in> set (outers s (board_ref (objs s a))). r < fresh s"
    using assms(1) by (auto simp: allocated_def list_all_iff)
  have "map (rows s') (outers s (board_ref (objs s a))) = map (rows s) (outers s (board_ref (objs s a)))"
    using rs old(3) by simp
  then show "load s' a = load s a" using a by (simp add: load_def old)
  show "allocated a s'" using a rs le by (auto simp: allocated_def list_all_iff old)
qed

lemma setup_length: "length (setup_board (replicate 8 (replicate 8 Empty))) = 8"
  by code_simp

lemma construct_props:
  assumes c: "construct s = (a, s')"
  shows "a = fresh s" and "keeps_old (fresh s) s s'" and "load s' a = new_board"
    and "allocated a s'"
proof -
  define g where "g = setup_board (replicate 8 (replicate 8 Empty))"
  define v0 where "v0 = \<lparr>board_ref = 0, turn_val = White, castling_ref = 0, en_passant_val = None\<rparr>"
  define s0 where "s0 = snd (new_obj v0 s)"
  have n0: "new_obj v0 s = (fresh s, s0)" by (simp add: s0_def new_obj_def)
  obtain rs s1 where nr: "new_rows g s0 = (rs, s1)" by fastforce
  define s2 where "s2 = snd (new_outer rs s1)"
  have n2: "new_outer rs s1 = (fresh s1, s2)" by (simp add: s2_def new_outer_def)
  define t2 where "t2 = set_turn (fresh s) White (set_board_ref (fresh s) (fresh s1) s2)"
  define d0 where "d0 = \<lparr>wK = True, wQ = True, bK = True, bQ = True\<rparr>"
  define s3 where "s3 = snd (new_dict d0 t2)"
  have n3: "new_dict d0 t2 = (fresh t2, s3)" by (simp add: s3_def new_dict_def)
  from c have a: "a = fresh s"
    and s': "s' = set_ep (fresh s) None (set_castling_ref (fresh s) (fresh t2) s3)"
    by (auto simp: construct_def g_def[symmetric] v0_def[symmetric] n0 nr n2
        t2_def[symmetric] d0_def[symmetric] n3)
  note p = new_rows_props[OF nr]
  have rs: "rs = [fresh s0 ..< fresh s0 + length g]" and f1: "fresh s1 = fresh s0 + length g"
    and o1: "objs s1 = objs s0" "outers s1 = outers s0" "dicts s1 = dicts s0"
    and m1: "map (rows s1) rs = g"
    using p by blast+
  have r1: "rows s1 x = rows s0 x" if "x < fresh s0" for x using p that by blast
  have f0: "fresh s0 = fresh s + 1" "outers s0 = outers s" "rows s0 = rows s" "dicts s0 = dicts s"
    by (simp_all add: s0_def new_obj_def)
  have ft: "fresh t2 = fresh s1 + 1"
    by (simp add: t2_def set_turn_def set_board_ref_def s2_def new_outer_def)
  have fs: "fresh s' = fresh s1 + 2" "rows s' = rows s1"
    "outers s' = (outers s)(fresh s1 := rs)"
    "dicts s' = (dicts s)(fresh s1 + 1 := d0)"
    by (simp_all add: s' set_ep_def set_castling_ref_def s3_def new_dict_def t2_def set_turn_def
        set_board_ref_def s2_def new_outer_def o1 f0)
  have ob: "objs s' x = (if x = a then \<lparr>board_ref = fresh s1, turn_val = White,
      castling_ref = fresh s1 + 1, en_passant_val = None\<rparr> else objs s x)" for x
    by (simp add: s' set_ep_def set_castling_ref_def s3_def new_dict_def t2_def set_turn_def
        set_board_ref_def s2_def new_outer_def o1 s0_def new_obj_def v0_def a)
  show "a = fresh s" by (rule a)
  show "keeps_old (fresh s) s s'"
    using r1 by (simp add: keeps_old_def same_below_iff fs ob a f1 f0)
  show "load s' a = new_board"
    by (simp add: load_def fs ob m1 new_board_def g_def d0_def)
  show "allocated a s'"
    by (auto simp: allocated_def fs ob a f1 f0 rs list_all_iff)
qed

lemma clone_id: "clone b = b"
  by (simp add: clone_def)

lemma clone_obj_props:
  assumes c: "clone_obj a s = (b, s')" and al: "allocated a s"
  shows "apart (fresh s) b s'" and "load s' b = load s a" and "keeps_old (fresh s) s s'"
proof -
  obtain b0 sc where cs: "construct s = (b0, sc)" by fastforce
  have b0: "b0 = fresh s" and kc: "keeps_old (fresh s) s sc"
    using construct_props[OF cs] by simp_all
  have old: "objs sc x = objs s x" "outers sc x = outers s x" "rows sc x = rows s x"
    "dicts sc x = dicts s x" if "x < fresh s" for x
    using kc that by (auto simp: keeps_old_def same_below_iff)
  have le: "fresh s \<le> fresh sc" using kc by (simp add: keeps_old_def)
  have la: "load sc a = load s a" and alc: "allocated a sc"
    using load_keeps_old[OF al kc] by simp_all
  have a: "a < fresh s" "castling_ref (objs s a) < fresh s"
    using al by (simp_all add: allocated_def)
  have ne: "a \<noteq> b0" using a b0 by simp
  define vs where "vs = map (rows sc) (outers sc (board_ref (objs sc a)))"
  have vs: "vs = board (load s a)" using la by (simp add: vs_def load_def)
  obtain rs s2 where nr: "new_rows vs sc = (rs, s2)" by fastforce
  note p = new_rows_props[OF nr]
  have rs: "rs = [fresh sc ..< fresh sc + length vs]" and f2: "fresh s2 = fresh sc + length vs"
    and o2: "objs s2 = objs sc" "outers s2 = outers sc" "dicts s2 = dicts sc"
    and m2: "map (rows s2) rs = vs"
    using p by blast+
  have r2: "rows s2 x = rows sc x" if "x < fresh sc" for x using p that by blast
  define s3 where "s3 = snd (new_outer rs s2)"
  have n3: "new_outer rs s2 = (fresh s2, s3)" by (simp add: s3_def new_outer_def)
  define t3 where "t3 = set_turn b0 (turn_val (objs s3 a)) (set_board_ref b0 (fresh s2) s3)"
  define s4 where "s4 = snd (new_dict (dicts s3 (castling_ref (objs s3 a))) t3)"
  have n4: "new_dict (dicts s3 (castling_ref (objs s3 a))) t3 = (fresh t3, s4)"
    by (simp add: s4_def new_dict_def)
  from c have b: "b = b0"
    and s': "s' = set_ep b0 (en_passant_val (objs s4 a)) (set_castling_ref b0 (fresh t3) s4)"
    by (auto simp: clone_obj_def cs vs_def[symmetric] nr n3 t3_def[symmetric] n4)
  have o3: "objs s3 = objs sc" "dicts s3 = dicts sc" "fresh s3 = fresh s2 + 1"
    by (simp_all add: s3_def new_outer_def o2)
  have ft: "fresh t3 = fresh s2 + 1"
    by (simp add: t3_def set_turn_def set_board_ref_def o3)
  have o4: "objs s4 a = objs sc a"
    using ne by (simp add: s4_def new_dict_def t3_def set_turn_def set_board_ref_def o3)
  have fs: "fresh s' = fresh s2 + 2" "rows s' = rows s2"
    "outers s' = (outers sc)(fresh s2 := rs)"
    "dicts s' = (dicts sc)(fresh s2 + 1 := dicts sc (castling_ref (objs sc a)))"
    by (simp_all add: s' set_ep_def set_castling_ref_def s4_def new_dict_def t3_def set_turn_def
        set_board_ref_def s3_def new_outer_def o2)
  have ob: "objs s' x = (if x = b0 then (objs sc b0)\<lparr>board_ref := fresh s2,
      turn_val := turn_val (objs sc a), castling_ref := fresh s2 + 1,
      en_passant_val := en_passant_val (objs sc a)\<rparr> else objs sc x)" for x
    using ne
    by (simp add: s' set_ep_def set_castling_ref_def s4_def new_dict_def t3_def set_turn_def
        set_board_ref_def s3_def new_outer_def o2)
  show "apart (fresh s) b s'"
    using le by (auto simp: apart_def b b0[symmetric] fs ob f2 rs list_all_iff)
  have "load s' b = load sc a"
    by (simp add: load_def b fs ob m2 vs_def)
  then show "load s' b = load s a" using la by simp
  show "keeps_old (fresh s) s s'"
    using le r2 by (simp add: keeps_old_def same_below_iff fs ob b0[symmetric] f2 old)
qed

section \<open>make_move on an object\<close>

text \<open>Every statement of \<^verbatim>\<open>make_move\<close> on an object whose rows are different lists does
  to the board of the object what the statement on boards does, and writes only to the
  object, its rows and its dictionary.\<close>

lemma sim_raises: "sim n b f g \<Longrightarrow> apart n b s \<Longrightarrow> g (load s b) = Inl e \<Longrightarrow> f s = Inl e"
  unfolding sim_def by (erule allE[of _ s]) simp

lemma sim_returns:
  "sim n b f g \<Longrightarrow> apart n b s \<Longrightarrow> g (load s b) = Inr x \<Longrightarrow>
     \<exists>s'. f s = Inr s' \<and> load s' b = x \<and> apart n b s' \<and> keeps_old n s s'"
  unfolding sim_def by (erule allE[of _ s]) simp

lemma py_idx_map: "py_idx (map f xs) i = py_idx xs i"
  by (simp add: py_idx_def)

lemma getitem_obj_load: "getitem_obj b r c s = getitem (board (load s b)) r c"
  by (auto simp: getitem_obj_def getitem_def load_def py_idx_map Let_def
      split: option.splits dest: py_idx_less)

lemma map_upd_distinct:
  assumes "distinct xs" and "i < length xs"
  shows "map (f(xs ! i := y)) xs = (map f xs)[i := y]"
proof (rule nth_equalityI)
  show "length (map (f(xs ! i := y)) xs) = length ((map f xs)[i := y])" by simp
next
  fix k assume "k < length (map (f(xs ! i := y)) xs)"
  then have k: "k < length xs" by simp
  then have "xs ! k = xs ! i \<longleftrightarrow> k = i"
    using assms by (simp add: nth_eq_iff_index_eq)
  then show "map (f(xs ! i := y)) xs ! k = (map f xs)[i := y] ! k"
    using k by (simp add: nth_list_update)
qed

lemma sim_set_cell: "sim n b (set_cell_obj b rc v) (set_cell rc v)"
  unfolding sim_def
proof (intro allI impI)
  fix s assume ap: "apart n b s"
  define out where "out = outers s (board_ref (objs s b))"
  have g: "board (load s b) = map (rows s) out" by (simp add: load_def out_def)
  have dist: "distinct out" and ge: "\<forall>r \<in> set out. n \<le> r"
    using ap by (simp_all add: apart_def out_def list_all_iff)
  show "case set_cell rc v (load s b) of
          Inl e \<Rightarrow> set_cell_obj b rc v s = Inl e
        | Inr x \<Rightarrow> \<exists>s'. set_cell_obj b rc v s = Inr s' \<and> load s' b = x \<and> apart n b s'
                      \<and> keeps_old n s s'"
  proof (cases "py_idx out (fst rc)")
    case None
    then show ?thesis
      by (simp add: set_cell_def setitem_def g py_idx_map set_cell_obj_def out_def[symmetric])
  next
    case (Some i)
    then have i: "i < length out" by (rule py_idx_less)
    show ?thesis
    proof (cases "py_idx (rows s (out ! i)) (snd rc)")
      case None
      then show ?thesis using Some i
        by (simp add: set_cell_def setitem_def g py_idx_map set_cell_obj_def out_def[symmetric])
    next
      case (Some j)
      define s' where "s' = s\<lparr>rows := (rows s)(out ! i := (rows s (out ! i))[j := v])\<rparr>"
      have f: "set_cell_obj b rc v s = Inr s'"
        using \<open>py_idx out (fst rc) = Some i\<close> Some
        by (simp add: set_cell_obj_def out_def[symmetric] s'_def)
      have p: "set_cell rc v (load s b)
          = Inr ((load s b)\<lparr>board := (map (rows s) out)[i := (rows s (out ! i))[j := v]]\<rparr>)"
        using \<open>py_idx out (fst rc) = Some i\<close> Some i
        by (simp add: set_cell_def setitem_def g py_idx_map)
      have l: "load s' b = (load s b)\<lparr>board := (map (rows s) out)[i := (rows s (out ! i))[j := v]]\<rparr>"
        using map_upd_distinct[OF dist i, of "rows s"]
        by (simp add: load_def s'_def out_def[symmetric])
      have a: "apart n b s'" using ap by (simp add: apart_def s'_def)
      have "n \<le> out ! i" using ge i by simp
      then have k: "keeps_old n s s'"
        by (auto simp: keeps_old_def same_below_iff s'_def)
      show ?thesis using f p l a k by simp
    qed
  qed
qed

lemma sim_copy_cell: "sim n b (copy_cell_obj b d sc) (copy_cell d sc)"
  unfolding sim_def
proof (intro allI impI)
  fix s assume ap: "apart n b s"
  show "case copy_cell d sc (load s b) of
          Inl e \<Rightarrow> copy_cell_obj b d sc s = Inl e
        | Inr x \<Rightarrow> \<exists>s'. copy_cell_obj b d sc s = Inr s' \<and> load s' b = x \<and> apart n b s'
                      \<and> keeps_old n s s'"
  proof (cases "getitem (board (load s b)) (fst sc) (snd sc)")
    case (Inl e)
    then show ?thesis by (simp add: copy_cell_def copy_cell_obj_def getitem_obj_load)
  next
    case (Inr v)
    have eq: "copy_cell d sc (load s b) = set_cell d v (load s b)"
      "copy_cell_obj b d sc s = set_cell_obj b d v s"
      using Inr by (simp_all add: copy_cell_def copy_cell_obj_def getitem_obj_load)
    show ?thesis
      unfolding eq
      using sim_raises[OF sim_set_cell ap, of d v] sim_returns[OF sim_set_cell ap, of d v]
      by (cases "set_cell d v (load s b)") auto
  qed
qed

lemma sim_flag:
  assumes "\<And>x. g x = Inr (x\<lparr>castling := f (castling x)\<rparr>)"
  shows "sim n b (set_flag b f) g"
  unfolding sim_def
proof (intro allI impI)
  fix s assume ap: "apart n b s"
  define s' where "s' = s\<lparr>dicts := (dicts s)(castling_ref (objs s b) := f (dicts s (castling_ref (objs s b))))\<rparr>"
  have "set_flag b f s = Inr s'" by (simp add: set_flag_def s'_def)
  moreover have "load s' b = (load s b)\<lparr>castling := f (castling (load s b))\<rparr>"
    by (simp add: load_def s'_def)
  moreover have "apart n b s'" using ap by (simp add: apart_def s'_def)
  moreover have "keeps_old n s s'"
    using ap by (auto simp: keeps_old_def same_below_iff s'_def apart_def)
  ultimately show "case g (load s b) of
          Inl e \<Rightarrow> set_flag b f s = Inl e
        | Inr x \<Rightarrow> \<exists>s'. set_flag b f s = Inr s' \<and> load s' b = x \<and> apart n b s'
                      \<and> keeps_old n s s'"
    by (simp add: assms)
qed

lemma sim_drops:
  "sim n b (drop_wK_obj b) drop_wK" "sim n b (drop_wQ_obj b) drop_wQ"
  "sim n b (drop_bK_obj b) drop_bK" "sim n b (drop_bQ_obj b) drop_bQ"
  unfolding drop_wK_obj_def drop_wQ_obj_def drop_bK_obj_def drop_bQ_obj_def
  by (rule sim_flag, simp add: drop_wK_def drop_wQ_def drop_bK_def drop_bQ_def)+

lemma sim_set_en_passant: "sim n b (set_en_passant_obj b e) (set_en_passant e)"
  by (auto simp: sim_def set_en_passant_obj_def set_en_passant_def set_ep_def load_def apart_def
      keeps_old_def same_below_iff)

lemma sim_flip_turn: "sim n b (flip_turn_obj b) flip_turn"
  by (auto simp: sim_def flip_turn_obj_def flip_turn_def set_turn_def load_def apart_def
      keeps_old_def same_below_iff)

lemma sim_when: "list_all2 Q fs gs \<Longrightarrow> list_all2 Q (when_obj c fs) (when_do c gs)"
  by (simp add: when_obj_def when_do_def)

lemma sim_corner_rights: "list_all2 (sim n b) (corner_rights_obj b sq) (corner_rights sq)"
  unfolding corner_rights_obj_def corner_rights_def
  by (intro list_all2_appendI sim_when) (simp_all add: sim_drops)

lemma sim_castle_rook: "list_all2 (sim n b) (castle_rook_obj b t) (castle_rook t)"
  by (simp add: castle_rook_obj_def castle_rook_def sim_set_cell sim_copy_cell)

lemma sim_rights_steps:
  "list_all2 (sim n b) (rights_steps_obj b mv col p dest) (rights_steps mv col p dest)"
  unfolding rights_steps_obj_def rights_steps_def
  by (intro list_all2_appendI sim_when sim_corner_rights) (simp add: sim_drops)

lemma sim_grid_steps: "list_all2 (sim n b) (grid_steps_obj b mv col p) (grid_steps mv col p)"
  unfolding grid_steps_obj_def grid_steps_def
  by (intro list_all2_appendI sim_when sim_castle_rook) (simp_all add: sim_set_cell)

lemma sim_move_steps:
  "list_all2 (sim n b) (move_steps_obj b mv col p dest) (move_steps mv col p dest)"
  unfolding move_steps_obj_def move_steps_def
  by (intro list_all2_appendI sim_when sim_rights_steps sim_grid_steps)
     (simp_all add: sim_set_en_passant sim_flip_turn)

lemma run_sim:
  assumes "list_all2 (sim n b) fs gs" and "apart n b s"
  shows "(fst (run_obj fs s), load (snd (run_obj fs s)) b) = run gs (load s b)
       \<and> apart n b (snd (run_obj fs s)) \<and> keeps_old n s (snd (run_obj fs s))"
  using assms
proof (induction fs gs arbitrary: s rule: list_all2_induct)
  case Nil
  then show ?case by (simp add: keeps_old_refl)
next
  case (Cons f fs g gs)
  show ?case
  proof (cases "g (load s b)")
    case (Inl e)
    then have "f s = Inl e" using Cons.hyps(1) Cons.prems by (auto dest: sim_raises)
    then show ?thesis using Inl Cons.prems by (simp add: keeps_old_refl)
  next
    case (Inr x)
    then obtain s' where f: "f s = Inr s'" and l: "load s' b = x" and a: "apart n b s'"
      and k: "keeps_old n s s'"
      using sim_returns[OF Cons.hyps(1) Cons.prems] by blast
    from Cons.IH[OF a] l k show ?thesis
      using f Inr by (auto intro: keeps_old_trans)
  qed
qed

lemma make_move_obj_sim:
  assumes "apart n b s"
  shows "(fst (make_move_obj b mv s), load (snd (make_move_obj b mv s)) b) = make_move (load s b) mv
       \<and> keeps_old n s (snd (make_move_obj b mv s))"
  using run_sim[OF sim_move_steps assms]
  by (auto simp: make_move_obj_def make_move_def getitem_obj_load keeps_old_refl
      split: sum.splits cell.splits)

section \<open>The legality filter leaves the board alone\<close>

lemma legal_loop_obj_frame:
  assumes "allocated a s"
  shows "fst (legal_loop_obj a col mvs s) = legal_loop (load s a) col mvs
       \<and> keeps_old (fresh s) s (snd (legal_loop_obj a col mvs s))"
  using assms
proof (induction mvs arbitrary: s)
  case Nil
  then show ?case by (simp add: keeps_old_refl)
next
  case (Cons mv mvs)
  obtain b s1 where c: "clone_obj a s = (b, s1)" by fastforce
  have ap: "apart (fresh s) b s1" and lb: "load s1 b = load s a"
    and k1: "keeps_old (fresh s) s s1"
    using clone_obj_props[OF c Cons.prems] by simp_all
  obtain e s2 where m: "make_move_obj b mv s1 = (e, s2)" by fastforce
  have pm: "make_move (clone (load s a)) mv = (e, load s2 b)"
    and k2: "keeps_old (fresh s) s1 s2"
    using make_move_obj_sim[OF ap, of mv] m lb by (simp_all add: clone_id)
  have k: "keeps_old (fresh s) s s2" using k1 k2 by (rule keeps_old_trans)
  have la: "load s2 a = load s a" and al: "allocated a s2"
    using load_keeps_old[OF Cons.prems k] by simp_all
  have le: "fresh s \<le> fresh s2" using k by (simp add: keeps_old_def)
  note ih = Cons.IH[OF al, unfolded la]
  have k3: "keeps_old (fresh s) s (snd (legal_loop_obj a col mvs s2))"
    using ih le k by (blast intro: keeps_old_trans keeps_old_mono)
  show ?case
  proof (cases e)
    case (Some x)
    then show ?thesis using c m pm k by simp
  next
    case None
    show ?thesis
    proof (cases "in_check (load s2 b) col")
      case (Inl x)
      then show ?thesis using c m pm k None by simp
    next
      case (Inr chk)
      obtain res s3 where r: "legal_loop_obj a col mvs s2 = (res, s3)" by fastforce
      have "res = legal_loop (load s a) col mvs" and "keeps_old (fresh s) s s3"
        using ih k3 r by simp_all
      then show ?thesis using c m pm None Inr r
        by (cases "legal_loop (load s a) col mvs") simp_all
    qed
  qed
qed

text \<open>C9: for an allocated \<^verbatim>\<open>Board\<close> object, after \<^verbatim>\<open>legal_moves\<close> the object stands for
  the same board as before, grid, side to move, castling rights and en-passant target;
  every reference allocated before the call holds what it held (the moves were applied
  to clones, which share no list and no dictionary with the object); and the call
  returns what \<^verbatim>\<open>legal_moves\<close> on boards returns.\<close>

theorem legal_moves_leaves_board:
  assumes "allocated a s"
  shows "load (snd (legal_moves_obj a col s)) a = load s a
       \<and> same_below (fresh s) s (snd (legal_moves_obj a col s))
       \<and> fst (legal_moves_obj a col s) = legal_moves (load s a) col"
proof -
  have f: "fst (legal_moves_obj a col s) = legal_moves (load s a) col"
    and k: "keeps_old (fresh s) s (snd (legal_moves_obj a col s))"
    using legal_loop_obj_frame[OF assms, of col "generate_pseudo (load s a) col"]
    by (simp_all add: legal_moves_obj_def legal_moves_def)
  from load_keeps_old(1)[OF assms k] f k show ?thesis by (simp add: keeps_old_def)
qed

theorem legal_moves_leaves_board_witness:
  "(let a = fst (construct empty_store); s = snd (construct empty_store)
    in allocated a s \<and> load s a = new_board
       \<and> load (snd (legal_moves_obj a White s)) a = new_board
       \<and> same_below (fresh s) s (snd (legal_moves_obj a White s))
       \<and> fst (legal_moves_obj a White s) = legal_moves new_board White)"
proof -
  define a where "a = fst (construct empty_store)"
  define s where "s = snd (construct empty_store)"
  have c: "construct empty_store = (a, s)" by (simp add: a_def s_def)
  have al: "allocated a s" and l: "load s a = new_board"
    using construct_props[OF c] by simp_all
  from legal_moves_leaves_board[OF al, of White] al l show ?thesis
    by (simp add: Let_def a_def[symmetric] s_def[symmetric])
qed

end
